theory Spec2Isabelle
  imports Main "HOL-Library.List_Lexorder" "HOL-Library.Multiset"
begin

section \<open>wanikani.py: the review-aggregation pipeline\<close>

text \<open>
  The embedding follows \<^verbatim>\<open>src/wanikani.py\<close> function by function. Everything the
  module reads from outside itself is a field of the record \<open>runtime\<close>: the HTTP layer
  (\<^verbatim>\<open>requests.get\<close>), the process environment (\<^verbatim>\<open>os.getenv\<close>), the clock with its
  ISO formatting (\<^verbatim>\<open>iso_now_minus\<close>), the iteration order of Python's hash sets, and
  \<^verbatim>\<open>str.lower\<close>, whose Unicode case table belongs to the interpreter.

  URLs, tokens and messages are modelled as \<open>string\<close>. A slug is a Python \<^verbatim>\<open>str\<close> of any
  characters and is kept as the list of its Unicode code points (\<open>ustr\<close>); lists of
  numbers are ordered lexicographically, as Python orders strings. Payloads are typed: a
  page is an envelope with a \<open>data\<close> list and a \<open>next_url\<close> cursor (\<open>None\<close> for JSON
  null), and every item carries the three fields the module reads (\<^verbatim>\<open>object\<close>,
  \<^verbatim>\<open>data.subject_id\<close>, \<^verbatim>\<open>data.slug\<close>).
\<close>

type_synonym ustr = "nat list"

text \<open>The code points of a literal.\<close>

definition ustr_of :: "string \<Rightarrow> ustr" where
  "ustr_of s = map of_char s"

definition WK_API_URL :: string where
  "WK_API_URL = ''https://api.wanikani.com/v2''"

definition CHUNK :: nat where
  "CHUNK = 1000"

text \<open>
  The exceptions that can leave the module. \<open>ReviewEndpointDown\<close> is the module's own
  class; \<open>HTTPError\<close> and \<open>Timeout\<close> are those of the requests library
  (\<^verbatim>\<open>raise_for_status\<close>, and \<^verbatim>\<open>requests.get(..., timeout=30)\<close>); \<open>ValueError\<close> is
  \<^verbatim>\<open>range\<close> with step 0; \<open>Exception\<close> is a plain \<^verbatim>\<open>Exception(message)\<close>; \<open>SystemExit\<close>
  is what \<^verbatim>\<open>sys.exit\<close> raises.
\<close>

datatype error =
    ReviewEndpointDown string
  | HTTPError nat
  | Timeout
  | ValueError
  | Exception string
  | SystemExit nat

record item =
  object :: string
  subject_id :: int
  slug :: ustr

record envelope =
  data :: "item list"
  next_url :: "string option"

datatype http_result =
    Response (status_code: nat) (resp_text: string) (json: envelope)
  | TimedOut

type_synonym headers = "(string \<times> string) list"

record runtime =
  requests_get :: "string \<Rightarrow> headers \<Rightarrow> http_result"
  getenv :: "string \<Rightarrow> string option"
  iso_now_minus :: "int \<Rightarrow> string"
  int_set_order :: "int list \<Rightarrow> int list"
  str_set_order :: "ustr list \<Rightarrow> ustr list"
  str_lower :: "ustr \<Rightarrow> ustr"

subsection \<open>fetch_paginated\<close>

text \<open>
  \<^verbatim>\<open>resp.raise_for_status()\<close> raises \<open>HTTPError\<close> for a status in 400..599 and returns
  otherwise.
\<close>

definition raise_for_status :: "nat \<Rightarrow> error + unit" where
  "raise_for_status code =
     (if 400 \<le> code \<and> code < 600 then Inl (HTTPError code) else Inr ())"

text \<open>
  What a run of the generator does, in order: the GET requests it issues and the items
  it yields. The run ends normally (\<open>None\<close>) or with an exception (\<open>Some e\<close>); a run
  that never ends is the value \<open>None\<close> of the option type around the result.
\<close>

datatype event = Request string | Yield item

fun yielded :: "event list \<Rightarrow> item list" where
  "yielded [] = []"
| "yielded (Request u # evs) = yielded evs"
| "yielded (Yield x # evs) = x # yielded evs"

fun requested :: "event list \<Rightarrow> string list" where
  "requested [] = []"
| "requested (Request u # evs) = u # requested evs"
| "requested (Yield x # evs) = requested evs"

text \<open>\<^verbatim>\<open>while url:\<close> is false for \<^verbatim>\<open>None\<close> and for the empty string.\<close>

definition truthy :: "string option \<Rightarrow> bool" where
  "truthy url = (case url of None \<Rightarrow> False | Some u \<Rightarrow> u \<noteq> [])"

partial_function (option) fetch_paginated ::
  "(string \<Rightarrow> headers \<Rightarrow> http_result) \<Rightarrow> string option \<Rightarrow> headers
     \<Rightarrow> (event list \<times> error option) option"
where
  "fetch_paginated get url hdrs =
     (case url of
        None \<Rightarrow> Some ([], None)
      | Some u \<Rightarrow>
          if u = [] then Some ([], None)
          else
            (case get u hdrs of
               TimedOut \<Rightarrow> Some ([Request u], Some Timeout)
             | Response code txt payload \<Rightarrow>
                 if 500 \<le> code then Some ([Request u], Some (ReviewEndpointDown txt))
                 else
                   (case raise_for_status code of
                      Inl e \<Rightarrow> Some ([Request u], Some e)
                    | Inr _ \<Rightarrow>
                        Option.bind (fetch_paginated get (next_url payload) hdrs)
                          (\<lambda>r. Some (Request u # map Yield (data payload) @ fst r, snd r)))))"

subsection \<open>chunked\<close>

text \<open>\<^verbatim>\<open>range(i, stop, step)\<close> for a non-negative start and a positive step.\<close>

function range_step :: "nat \<Rightarrow> nat \<Rightarrow> nat \<Rightarrow> nat list" where
  "range_step i stop step =
     (if step = 0 \<or> stop \<le> i then [] else i # range_step (i + step) stop step)"
  by pat_completeness auto
termination
  by (relation "measure (\<lambda>(i, stop, step). stop - i)") auto

declare range_step.simps [simp del]

text \<open>\<^verbatim>\<open>seq[i : j]\<close> for \<open>0 \<le> i \<le> j\<close>: Python clips the slice at the end of the list.\<close>

definition slice :: "'a list \<Rightarrow> nat \<Rightarrow> nat \<Rightarrow> 'a list" where
  "slice seq i j = take (j - i) (drop i seq)"

definition chunked :: "int list \<Rightarrow> nat \<Rightarrow> error + int list list" where
  "chunked seq sz =
     (if sz = 0 then Inl ValueError
      else Inr (map (\<lambda>i. slice seq i (i + sz)) (range_step 0 (length seq) sz)))"

subsection \<open>Python sets, str, join, str.lower\<close>

text \<open>
  A Python set is kept as the list of its distinct elements in insertion order;
  iterating over it (\<^verbatim>\<open>list(s)\<close>, \<^verbatim>\<open>sorted(s)\<close>) visits them in the order the
  runtime's hash tables give, which is a field of \<open>runtime\<close>.
\<close>

definition set_add :: "'a \<Rightarrow> 'a list \<Rightarrow> 'a list" where
  "set_add x s = (if x \<in> set s then s else s @ [x])"

definition py_set :: "'a list \<Rightarrow> 'a list" where
  "py_set xs = foldl (\<lambda>s x. set_add x s) [] xs"

definition digit_char :: "nat \<Rightarrow> char" where
  "digit_char d = char_of (48 + d)"

fun str_nat :: "nat \<Rightarrow> string" where
  "str_nat n = (if n < 10 then [digit_char n] else str_nat (n div 10) @ [digit_char (n mod 10)])"

declare str_nat.simps [simp del]

definition str_int :: "int \<Rightarrow> string" where
  "str_int i = (if i < 0 then CHR ''-'' # str_nat (nat (- i)) else str_nat (nat i))"

fun join :: "'a list \<Rightarrow> 'a list list \<Rightarrow> 'a list" where
  "join sep [] = []"
| "join sep [x] = x"
| "join sep (x # y # ys) = x @ sep @ join sep (y # ys)"

text \<open>
  \<^verbatim>\<open>str.lower\<close> is the field \<open>str_lower\<close> of the runtime. What is used of it, and only
  for slugs of ASCII characters: there it replaces the letters A to Z by a to z and
  leaves every other character as it is.
\<close>

definition ascii_lower :: "ustr \<Rightarrow> ustr" where
  "ascii_lower s = map (\<lambda>c. if 65 \<le> c \<and> c \<le> 90 then c + 32 else c) s"

definition is_ascii :: "ustr \<Rightarrow> bool" where
  "is_ascii s = list_all (\<lambda>c. c < 128) s"

subsection \<open>gather_vocab_subjects\<close>

definition subjects_url :: "int list \<Rightarrow> string" where
  "subjects_url batch = WK_API_URL @ ''/subjects?ids='' @ join '','' (map str_int batch)"

definition vocab_slugs :: "item list \<Rightarrow> ustr list" where
  "vocab_slugs subjs = map slug (filter (\<lambda>subj. object subj = ''vocabulary'') subjs)"

text \<open>
  The loop over the batches, with the list \<^verbatim>\<open>vocab\<close> as accumulator. An exception of
  the inner generator leaves the loop at once. The result carries the events of the
  inner generators in the order they happen: the requests of a lookup are part of what
  it does.
\<close>

fun gather_batches ::
  "(string \<Rightarrow> headers \<Rightarrow> http_result) \<Rightarrow> headers \<Rightarrow> int list list \<Rightarrow> ustr list
     \<Rightarrow> (event list \<times> (error + ustr list)) option"
where
  "gather_batches get hdrs [] vocab = Some ([], Inr vocab)"
| "gather_batches get hdrs (batch # rest) vocab =
     (case fetch_paginated get (Some (subjects_url batch)) hdrs of
        None \<Rightarrow> None
      | Some (evs, Some e) \<Rightarrow> Some (evs, Inl e)
      | Some (evs, None) \<Rightarrow>
          (case gather_batches get hdrs rest (vocab @ vocab_slugs (yielded evs)) of
             None \<Rightarrow> None
           | Some (evs', res) \<Rightarrow> Some (evs @ evs', res)))"

definition sorted_set_lower :: "runtime \<Rightarrow> ustr list \<Rightarrow> ustr list" where
  "sorted_set_lower rt vocab = sort_key (str_lower rt) (str_set_order rt (py_set vocab))"

definition gather_vocab_subjects ::
  "runtime \<Rightarrow> int list \<Rightarrow> headers \<Rightarrow> (event list \<times> (error + ustr list)) option"
where
  "gather_vocab_subjects rt subject_ids hdrs =
     (case chunked (int_set_order rt subject_ids) CHUNK of
        Inl e \<Rightarrow> Some ([], Inl e)
      | Inr batches \<Rightarrow>
          (case gather_batches (requests_get rt) hdrs batches [] of
             None \<Rightarrow> None
           | Some (evs, Inl e) \<Rightarrow> Some (evs, Inl e)
           | Some (evs, Inr vocab) \<Rightarrow> Some (evs, Inr (sorted_set_lower rt vocab))))"

subsection \<open>The two identifier resolvers\<close>

definition recent_subject_ids_via_reviews ::
  "runtime \<Rightarrow> string \<Rightarrow> headers \<Rightarrow> (error + int list) option"
where
  "recent_subject_ids_via_reviews rt since hdrs =
     (case fetch_paginated (requests_get rt)
             (Some (WK_API_URL @ ''/reviews?updated_after='' @ since)) hdrs of
        None \<Rightarrow> None
      | Some (evs, Some e) \<Rightarrow> Some (Inl e)
      | Some (evs, None) \<Rightarrow> Some (Inr (py_set (map subject_id (yielded evs)))))"

definition recent_subject_ids_via_assignments ::
  "runtime \<Rightarrow> string \<Rightarrow> headers \<Rightarrow> (error + int list) option"
where
  "recent_subject_ids_via_assignments rt since hdrs =
     (case fetch_paginated (requests_get rt)
             (Some (WK_API_URL @ ''/assignments?updated_after='' @ since)) hdrs of
        None \<Rightarrow> None
      | Some (evs, Some e) \<Rightarrow> Some (Inl e)
      | Some (evs, None) \<Rightarrow>
          Some (Inr (foldl (\<lambda>ids asg. set_add (subject_id asg) ids) [] (yielded evs))))"

subsection \<open>get_vocab\<close>

text \<open>
  The result pairs what the call prints on standard error with how it ends: \<open>Inl e\<close>
  for an exception leaving the call, \<open>Inr vocab\<close> for the returned list.
  \<^verbatim>\<open>api_token or os.getenv(...)\<close> is the parameter when it is non-empty and the
  environment's value (possibly \<^verbatim>\<open>None\<close>) otherwise.
\<close>

definition token_of :: "runtime \<Rightarrow> string \<Rightarrow> string option" where
  "token_of rt api_token =
     (if api_token \<noteq> [] then Some api_token else getenv rt ''WANIKANI_API_TOKEN'')"

definition auth_headers :: "string \<Rightarrow> headers" where
  "auth_headers token = [(''Authorization'', ''Bearer '' @ token)]"

definition get_vocab ::
  "runtime \<Rightarrow> int \<Rightarrow> string \<Rightarrow> (string list \<times> (error + ustr list)) option"
where
  "get_vocab rt minutes api_token =
     (case token_of rt api_token of
        None \<Rightarrow>
          Some ([''API token required via --api-token or WANIKANI_API_TOKEN env var''],
                Inl (SystemExit 1))
      | Some token \<Rightarrow>
          if token = []
          then Some ([''API token required via --api-token or WANIKANI_API_TOKEN env var''],
                     Inl (SystemExit 1))
          else
            (let since = iso_now_minus rt minutes;
                 hdrs = auth_headers token
             in case recent_subject_ids_via_assignments rt since hdrs of
                  None \<Rightarrow> None
                | Some (Inl (ReviewEndpointDown e)) \<Rightarrow>
                    Some ([''Reviews endpoint down''], Inl (ReviewEndpointDown e))
                | Some (Inl e) \<Rightarrow> Some ([], Inl e)
                | Some (Inr ids) \<Rightarrow>
                    if ids = []
                    then Some ([''No recent reviews found''],
                               Inl (Exception ''No recent reviews found''))
                    else
                      (case gather_vocab_subjects rt ids hdrs of
                         None \<Rightarrow> None
                       | Some (evs, Inl e) \<Rightarrow> Some ([], Inl e)
                       | Some (evs, Inr vocab) \<Rightarrow>
                           if vocab = []
                           then Some ([''No vocabulary among those reviews''],
                                      Inl (Exception ''No vocabulary among those reviews''))
                           else Some ([], Inr vocab))))"

section \<open>main.py: the call site of get_vocab\<close>

text \<open>
  \<^verbatim>\<open>except Exception\<close> catches every exception of the model but \<open>SystemExit\<close>,
  which derives from \<^verbatim>\<open>BaseException\<close> only.
\<close>

fun is_Exception :: "error \<Rightarrow> bool" where
  "is_Exception (SystemExit code) = False"
| "is_Exception e = True"

text \<open>
  The class of an exception, \<^verbatim>\<open>type(e).__name__\<close>: what an \<^verbatim>\<open>except\<close> clause or
  \<^verbatim>\<open>isinstance\<close> can tell apart without reading the message.
\<close>

fun error_class :: "error \<Rightarrow> string" where
  "error_class (ReviewEndpointDown t) = ''ReviewEndpointDown''"
| "error_class (HTTPError code) = ''HTTPError''"
| "error_class Timeout = ''Timeout''"
| "error_class ValueError = ''ValueError''"
| "error_class (Exception m) = ''Exception''"
| "error_class (SystemExit code) = ''SystemExit''"

text \<open>The exceptions that the generator itself can raise.\<close>

fun http_error :: "error \<Rightarrow> bool" where
  "http_error (ReviewEndpointDown t) = True"
| "http_error (HTTPError code) = True"
| "http_error Timeout = True"
| "http_error e = False"

text \<open>
  Lines 68 to 75 of the script: the guarded call with the default (empty) token and a
  window of 1440 minutes, then \<^verbatim>\<open>input_text\<close> as \<^verbatim>\<open>vocab\<close> joined by three newlines. \<open>Inr\<close> holds
  \<^verbatim>\<open>vocab\<close> and \<^verbatim>\<open>input_text\<close> when the script goes on; \<open>Inl e\<close> is an exception that
  leaves the script.
\<close>

definition session_start :: "runtime \<Rightarrow> (error + ustr list \<times> ustr) option" where
  "session_start rt =
     (case get_vocab rt 1440 [] of
        None \<Rightarrow> None
      | Some (log, Inr vocab) \<Rightarrow>
          Some (Inr (vocab, join [10, 10, 10] vocab))
      | Some (log, Inl e) \<Rightarrow>
          if is_Exception e then Some (Inr ([], join [10, 10, 10] []))
          else Some (Inl e))"

section \<open>main.py: the streaming-response multiplexer\<close>

text \<open>
  A chunk of the generation stream holds candidates, a candidate holds a content, a
  content holds parts; each of the three may be \<^verbatim>\<open>None\<close>. A part has a text (absent,
  \<^verbatim>\<open>None\<close> or a string: \<open>None\<close> stands for the first two) and the flag \<^verbatim>\<open>thought\<close>.
\<close>

record part =
  part_text :: "string option"
  thought :: bool

datatype content = Content (parts: "part list option")

datatype candidate = Candidate (content: "content option")

datatype chunk = Chunk (candidates: "candidate list option")

text \<open>
  The global \<^verbatim>\<open>thought_box\<close> is the placeholder made by \<^verbatim>\<open>st.empty()\<close> until
  \<^verbatim>\<open>finish_thinking\<close> replaces it by a collapsed expander. The effects of a run, in
  order: \<^verbatim>\<open>thought_box.markdown(s)\<close> on the widget that \<^verbatim>\<open>thought_box\<close> names then,
  \<^verbatim>\<open>thought_box.empty()\<close>, \<^verbatim>\<open>st.expander(expanded=False, ...)\<close>, a yielded text, and
  the final \<^verbatim>\<open>print(answer)\<close>.
\<close>

datatype widget = Placeholder | Expander

datatype effect =
    BoxMarkdown widget string
  | BoxEmpty
  | NewExpander
  | YieldText string
  | PrintAnswer string

record render_state =
  answer :: string
  thoughts :: string
  thoughts_folded :: bool
  thought_box :: widget
  trace :: "effect list"

definition finish_thinking :: "render_state \<Rightarrow> render_state" where
  "finish_thinking s =
     (if \<not> thoughts_folded s
      then s\<lparr>thought_box := Expander,
             trace := trace s @ [BoxEmpty, NewExpander, BoxMarkdown Expander (thoughts s)]\<rparr>
      else s)"

text \<open>The body of the innermost loop, for one part.\<close>

definition step_part :: "render_state \<Rightarrow> part \<Rightarrow> render_state" where
  "step_part s p =
     (case part_text p of
        None \<Rightarrow> s
      | Some t \<Rightarrow>
          if t = [] then s
          else if thought p
          then s\<lparr>thoughts := thoughts s @ t,
                 trace := trace s @ [BoxMarkdown (thought_box s) (thoughts s @ t)]\<rparr>
          else (finish_thinking s)
                 \<lparr>thoughts_folded := True,
                  answer := answer s @ t,
                  trace := trace (finish_thinking s) @ [YieldText t]\<rparr>)"

definition step_cand :: "render_state \<Rightarrow> candidate \<Rightarrow> render_state" where
  "step_cand s cand =
     (case content cand of
        None \<Rightarrow> s
      | Some c \<Rightarrow> (case parts c of None \<Rightarrow> s | Some ps \<Rightarrow> foldl step_part s ps))"

definition step_chunk :: "render_state \<Rightarrow> chunk \<Rightarrow> render_state" where
  "step_chunk s ch =
     (case candidates ch of None \<Rightarrow> s | Some cands \<Rightarrow> foldl step_cand s cands)"

definition init_state :: render_state where
  "init_state =
     \<lparr>answer = [], thoughts = [], thoughts_folded = False, thought_box = Placeholder,
      trace = []\<rparr>"

text \<open>
  A full run of the generator over the chunks that the generation call streams back,
  consumed to the end as \<^verbatim>\<open>st.write_stream\<close> does.
\<close>

definition gen_chunks :: "chunk list \<Rightarrow> render_state" where
  "gen_chunks stream =
     (let s = foldl step_chunk init_state stream
      in s\<lparr>trace := trace s @ [PrintAnswer (answer s)]\<rparr>)"

subsection \<open>What a run shows\<close>

fun yields :: "effect list \<Rightarrow> string list" where
  "yields [] = []"
| "yields (YieldText t # es) = t # yields es"
| "yields (e # es) = yields es"

definition fold_count :: "effect list \<Rightarrow> nat" where
  "fold_count es = count_list es NewExpander"

text \<open>The fragments of a stream in arrival order, as the three nested loops visit them.\<close>

definition cand_parts :: "candidate \<Rightarrow> part list" where
  "cand_parts cand =
     (case content cand of
        None \<Rightarrow> []
      | Some c \<Rightarrow> (case parts c of None \<Rightarrow> [] | Some ps \<Rightarrow> ps))"

definition chunk_parts :: "chunk \<Rightarrow> part list" where
  "chunk_parts ch =
     (case candidates ch of None \<Rightarrow> [] | Some cands \<Rightarrow> concat (map cand_parts cands))"

definition fragments :: "chunk list \<Rightarrow> part list" where
  "fragments stream = concat (map chunk_parts stream)"

definition part_str :: "part \<Rightarrow> string" where
  "part_str p = (case part_text p of None \<Rightarrow> [] | Some t \<Rightarrow> t)"

definition is_answer :: "part \<Rightarrow> bool" where
  "is_answer p = (\<not> thought p)"

definition answer_part :: "part \<Rightarrow> bool" where
  "answer_part p = (part_str p \<noteq> [] \<and> \<not> thought p)"

definition thought_part :: "part \<Rightarrow> bool" where
  "thought_part p = (part_str p \<noteq> [] \<and> thought p)"

section \<open>Finite page chains\<close>

text \<open>
  A finite chain of pages as a server presents it: \<open>page_chain get hdrs url pages\<close> holds
  when following the cursor from \<open>url\<close> meets exactly the pages of the list, each
  answered with a status below 400, and the cursor of the last page is absent
  (\<^verbatim>\<open>None\<close>, or empty). \<open>chain_events\<close> is the run one expects over such a chain: for
  each page the request, then the page's items in payload order.
\<close>

fun page_chain ::
  "(string \<Rightarrow> headers \<Rightarrow> http_result) \<Rightarrow> headers \<Rightarrow> string option \<Rightarrow> envelope list \<Rightarrow> bool"
where
  "page_chain get hdrs url [] = (\<not> truthy url)"
| "page_chain get hdrs url (p # ps) =
     (case url of
        None \<Rightarrow> False
      | Some u \<Rightarrow>
          u \<noteq> [] \<and>
          (case get u hdrs of
             TimedOut \<Rightarrow> False
           | Response code txt payload \<Rightarrow>
               code < 400 \<and> payload = p \<and> page_chain get hdrs (next_url p) ps))"

fun chain_events :: "string option \<Rightarrow> envelope list \<Rightarrow> event list" where
  "chain_events url [] = []"
| "chain_events url (p # ps) =
     (case url of
        None \<Rightarrow> []
      | Some u \<Rightarrow> Request u # map Yield (data p) @ chain_events (next_url p) ps)"

section \<open>Concrete runtimes and streams\<close>

text \<open>
  Small worlds on which the functions are evaluated: an environment with and without the
  token, a fixed clock, and servers that answer every request with a 503, with an empty
  page, with a timeout, with one subject of kind radical, with four vocabulary subjects,
  and with a chain of three pages.
\<close>

definition example_env :: "string \<Rightarrow> string option" where
  "example_env name = (if name = ''WANIKANI_API_TOKEN'' then Some ''tok'' else None)"

definition empty_env :: "string \<Rightarrow> string option" where
  "empty_env name = None"

definition example_clock :: "int \<Rightarrow> string" where
  "example_clock minutes = ''2024-01-01T00:00:00Z''"

definition mk_runtime :: "(string \<Rightarrow> headers \<Rightarrow> http_result) \<Rightarrow> runtime" where
  "mk_runtime get =
     \<lparr>requests_get = get, getenv = example_env, iso_now_minus = example_clock,
      int_set_order = (\<lambda>xs. xs), str_set_order = (\<lambda>xs. xs), str_lower = ascii_lower\<rparr>"

definition down_get :: "string \<Rightarrow> headers \<Rightarrow> http_result" where
  "down_get u h = Response 503 ''Service Unavailable'' \<lparr>data = [], next_url = None\<rparr>"

definition idle_get :: "string \<Rightarrow> headers \<Rightarrow> http_result" where
  "idle_get u h = Response 200 [] \<lparr>data = [], next_url = None\<rparr>"

definition timeout_get :: "string \<Rightarrow> headers \<Rightarrow> http_result" where
  "timeout_get u h = TimedOut"

definition radical_get :: "string \<Rightarrow> headers \<Rightarrow> http_result" where
  "radical_get u h =
     (if u = ''https://api.wanikani.com/v2/subjects?ids=101''
      then Response 200 []
             \<lparr>data = [\<lparr>object = ''radical'', subject_id = 101, slug = ustr_of ''ground''\<rparr>],
              next_url = None\<rparr>
      else Response 200 []
             \<lparr>data = [\<lparr>object = ''assignment'', subject_id = 101, slug = []\<rparr>],
              next_url = None\<rparr>)"

definition fruit_get :: "string \<Rightarrow> headers \<Rightarrow> http_result" where
  "fruit_get u h =
     Response 200 []
       \<lparr>data = [\<lparr>object = ''vocabulary'', subject_id = 1, slug = ustr_of ''banana''\<rparr>,
                \<lparr>object = ''vocabulary'', subject_id = 2, slug = ustr_of ''Apple''\<rparr>,
                \<lparr>object = ''vocabulary'', subject_id = 3, slug = ustr_of ''apple''\<rparr>,
                \<lparr>object = ''vocabulary'', subject_id = 4, slug = ustr_of ''Cherry''\<rparr>],
        next_url = None\<rparr>"

definition pages_get :: "string \<Rightarrow> headers \<Rightarrow> http_result" where
  "pages_get u h =
     (if u = ''p1''
      then Response 200 []
             \<lparr>data = [\<lparr>object = ''kanji'', subject_id = 7, slug = ustr_of ''a''\<rparr>,
                      \<lparr>object = ''vocabulary'', subject_id = 8, slug = ustr_of ''b''\<rparr>],
              next_url = Some ''p2''\<rparr>
      else if u = ''p2''
      then Response 200 [] \<lparr>data = [], next_url = Some ''p3''\<rparr>
      else Response 200 []
             \<lparr>data = [\<lparr>object = ''vocabulary'', subject_id = 9, slug = ustr_of ''c''\<rparr>],
              next_url = None\<rparr>)"

definition rev_runtime :: runtime where
  "rev_runtime = (mk_runtime fruit_get)\<lparr>str_set_order := rev\<rparr>"

definition no_token_runtime :: runtime where
  "no_token_runtime = (mk_runtime idle_get)\<lparr>getenv := empty_env\<rparr>"

text \<open>
  Three generation streams: thoughts, then answers interleaved with a late thought and
  an absent text; a single non-thought fragment whose text is empty; and two answers
  around an empty non-thought fragment.
\<close>

definition fold_stream :: "chunk list" where
  "fold_stream =
     [Chunk (Some [Candidate (Some (Content (Some
        [\<lparr>part_text = Some ''a'', thought = True\<rparr>,
         \<lparr>part_text = Some ''ab'', thought = True\<rparr>])))]),
      Chunk None,
      Chunk (Some [Candidate None, Candidate (Some (Content None)),
        Candidate (Some (Content (Some
        [\<lparr>part_text = Some ''X'', thought = False\<rparr>,
         \<lparr>part_text = Some ''abc'', thought = True\<rparr>,
         \<lparr>part_text = None, thought = False\<rparr>,
         \<lparr>part_text = Some ''Y'', thought = False\<rparr>])))])]"

definition empty_answer_stream :: "chunk list" where
  "empty_answer_stream =
     [Chunk (Some [Candidate (Some (Content (Some
        [\<lparr>part_text = Some [], thought = False\<rparr>])))])]"

definition gap_stream :: "chunk list" where
  "gap_stream =
     [Chunk (Some [Candidate (Some (Content (Some
        [\<lparr>part_text = Some ''X'', thought = False\<rparr>,
         \<lparr>part_text = Some [], thought = False\<rparr>,
         \<lparr>part_text = Some ''Y'', thought = False\<rparr>])))])]"

section \<open>Batching: chunked\<close>

lemma range_step_stop: "stop \<le> i \<Longrightarrow> range_step i stop step = []"
  by (subst range_step.simps) simp

lemma range_step_rec:
  "0 < step \<Longrightarrow> i < stop \<Longrightarrow> range_step i stop step = i # range_step (i + step) stop step"
  by (subst range_step.simps) simp

lemma ceil_step:
  "0 < (step::nat) \<Longrightarrow> (d + step + step - Suc 0) div step = Suc ((d + step - Suc 0) div step)"
proof -
  assume s: "0 < step"
  then have e: "d + step + step - Suc 0 = (d + step - Suc 0) + step" by simp
  from s have "step \<noteq> 0" by simp
  then have "(d + step - Suc 0 + step) div step = (d + step - Suc 0) div step + 1"
    by (rule div_add_self2)
  then show ?thesis by (simp only: e Suc_eq_plus1 [symmetric])
qed

lemma range_step_length:
  "0 < step \<Longrightarrow> length (range_step i stop step) = (stop - i + step - 1) div step"
proof (induction i stop step rule: range_step.induct)
  case (1 i stop step)
  show ?case
  proof (cases "stop \<le> i")
    case True
    with "1.prems" show ?thesis by (simp add: range_step_stop)
  next
    case False
    show ?thesis
    proof (cases "stop \<le> i + step")
      case True
      with False "1.prems" have "(stop - i + step - 1) div step = 1"
        by (intro div_nat_eqI) auto
      with True False "1.prems" show ?thesis
        by (simp add: range_step_rec range_step_stop)
    next
      case gt: False
      then obtain d where d: "stop - i = d + step"
        by (metis add.commute le_add_diff_inverse less_imp_le_nat not_le less_diff_conv)
      then have "stop - (i + step) = d" by simp
      with "1.IH" "1.prems" False
      have "length (range_step (i + step) stop step) = (d + step - 1) div step"
        by simp
      with False "1.prems" d show ?thesis
        by (simp add: range_step_rec ceil_step)
    qed
  qed
qed

lemma concat_slices:
  "0 < step \<Longrightarrow>
   concat (map (\<lambda>k. slice seq k (k + step)) (range_step i (length seq) step)) = drop i seq"
proof (induction i "length seq" step rule: range_step.induct)
  case (1 i step)
  show ?case
  proof (cases "length seq \<le> i")
    case True
    then show ?thesis by (simp add: range_step_stop)
  next
    case False
    with "1.prems" "1.hyps" have
      "concat (map (\<lambda>k. slice seq k (k + step)) (range_step (i + step) (length seq) step))
         = drop (i + step) seq"
      by simp
    moreover have "take step (drop i seq) @ drop (i + step) seq = drop i seq"
      by (metis add.commute append_take_drop_id drop_drop)
    ultimately show ?thesis using False "1.prems"
      by (simp add: range_step_rec slice_def)
  qed
qed

lemma range_step_bound:
  "0 < step \<Longrightarrow> list_all (\<lambda>k. k < stop) (range_step i stop step)"
proof (induction i stop step rule: range_step.induct)
  case (1 i stop step)
  then show ?case
    by (cases "stop \<le> i") (simp_all add: range_step_stop range_step_rec)
qed

lemma once_in_concat:
  "distinct (concat bs) \<Longrightarrow> x \<in> set (concat bs) \<Longrightarrow>
   length (filter (\<lambda>b. x \<in> set b) bs) = 1"
proof (induction bs)
  case Nil
  then show ?case by simp
next
  case (Cons b bs)
  show ?case
  proof (cases "x \<in> set b")
    case True
    with Cons.prems have "\<forall>c \<in> set bs. x \<notin> set c" by auto
    then have "filter (\<lambda>b. x \<in> set b) bs = []" by (simp add: filter_empty_conv)
    with True show ?thesis by simp
  next
    case False
    with Cons show ?thesis by auto
  qed
qed

lemma ceil_div_bounds:
  assumes "0 < (b::nat)"
  shows "n \<le> ((n + b - 1) div b) * b" and "((n + b - 1) div b) * b < n + b"
proof -
  have e: "((n + b - 1) div b) * b + (n + b - 1) mod b = n + b - 1"
    by (rule div_mult_mod_eq)
  have r: "(n + b - 1) mod b < b"
    using assms by (rule mod_less_divisor)
  from e r assms show "n \<le> ((n + b - 1) div b) * b" by linarith
  from e r assms show "((n + b - 1) div b) * b < n + b" by linarith
qed

text \<open>
  The batches that \<open>chunked\<close> cuts from a duplicate-free list of \<open>K\<close> identifiers with the
  size \<open>CHUNK\<close>: their number is \<open>(K + CHUNK - 1) div CHUNK\<close>, every batch is non-empty
  and holds at most \<open>CHUNK\<close> identifiers, the batches concatenated give the list back,
  and every identifier is in exactly one batch.
\<close>

lemma chunked_partition:
  assumes "distinct seq"
  shows "\<exists>batches. chunked seq CHUNK = Inr batches
           \<and> length batches = (length seq + CHUNK - 1) div CHUNK
           \<and> length seq \<le> length batches * CHUNK
           \<and> length batches * CHUNK < length seq + CHUNK
           \<and> (\<forall>b \<in> set batches. b \<noteq> [] \<and> length b \<le> CHUNK)
           \<and> concat batches = seq
           \<and> (\<forall>x \<in> set seq. length (filter (\<lambda>b. x \<in> set b) batches) = 1)"
proof -
  define batches where
    "batches = map (\<lambda>k. slice seq k (k + CHUNK)) (range_step 0 (length seq) CHUNK)"
  have pos: "0 < CHUNK" by (simp add: CHUNK_def)
  have c: "chunked seq CHUNK = Inr batches"
    using pos by (simp add: chunked_def batches_def)
  have len: "length batches = (length seq + CHUNK - 1) div CHUNK"
    using range_step_length [OF pos, of 0 "length seq"] by (simp add: batches_def)
  have cat: "concat batches = seq"
    using concat_slices [OF pos, of seq 0] by (simp add: batches_def)
  have up: "length seq \<le> length batches * CHUNK"
    unfolding len by (rule ceil_div_bounds [OF pos])
  have lo: "length batches * CHUNK < length seq + CHUNK"
    unfolding len by (rule ceil_div_bounds [OF pos])
  have each: "\<forall>b \<in> set batches. b \<noteq> [] \<and> length b \<le> CHUNK"
  proof
    fix b assume "b \<in> set batches"
    then obtain k where k: "k \<in> set (range_step 0 (length seq) CHUNK)"
      and b: "b = slice seq k (k + CHUNK)"
      by (auto simp: batches_def)
    from range_step_bound [OF pos, of "length seq" 0] k have "k < length seq"
      by (simp add: list_all_iff)
    with b pos show "b \<noteq> [] \<and> length b \<le> CHUNK"
      by (simp add: slice_def)
  qed
  have once: "\<forall>x \<in> set seq. length (filter (\<lambda>b. x \<in> set b) batches) = 1"
    using once_in_concat [of batches] assms cat by simp
  from c len up lo each cat once show ?thesis by blast
qed

lemma chunked_example:
  "distinct (map int [0..<2500])
   \<and> (\<exists>batches. chunked (map int [0..<2500]) CHUNK = Inr batches
         \<and> length batches = 3
         \<and> concat batches = map int [0..<2500])"
proof -
  have d: "distinct (map int [0..<2500])"
    by (simp add: distinct_map)
  have "(length (map int [0..<2500]) + CHUNK - 1) div CHUNK = 3"
    by (simp add: CHUNK_def)
  with chunked_partition [OF d] d show ?thesis by auto
qed

section \<open>The multiplexer: one pass over the fragments\<close>

lemma step_cand_fold: "step_cand s cand = foldl step_part s (cand_parts cand)"
  by (simp add: step_cand_def cand_parts_def split: option.splits)

lemma step_chunk_fold: "step_chunk s ch = foldl step_part s (chunk_parts ch)"
proof -
  have "foldl step_cand s cands = foldl step_part s (concat (map cand_parts cands))" for cands
    by (induction cands arbitrary: s) (simp_all add: step_cand_fold)
  then show ?thesis
    by (simp add: step_chunk_def chunk_parts_def split: option.splits)
qed

lemma stream_fold: "foldl step_chunk s stream = foldl step_part s (fragments stream)"
  by (induction stream arbitrary: s) (simp_all add: fragments_def step_chunk_fold)

lemma step_part_skip: "part_str p = [] \<Longrightarrow> step_part s p = s"
  by (simp add: step_part_def part_str_def split: option.splits)

lemma step_part_thought:
  "thought_part p \<Longrightarrow>
   step_part s p = s\<lparr>thoughts := thoughts s @ part_str p,
       trace := trace s @ [BoxMarkdown (thought_box s) (thoughts s @ part_str p)]\<rparr>"
  by (auto simp: step_part_def part_str_def thought_part_def split: option.splits)

lemma step_part_answer:
  "answer_part p \<Longrightarrow>
   step_part s p = (finish_thinking s)\<lparr>thoughts_folded := True, answer := answer s @ part_str p,
       trace := trace (finish_thinking s) @ [YieldText (part_str p)]\<rparr>"
  by (auto simp: step_part_def part_str_def answer_part_def split: option.splits)

lemma part_cases: "part_str p = [] \<or> thought_part p \<or> answer_part p"
  by (auto simp: thought_part_def answer_part_def)

lemma yields_append: "yields (es @ fs) = yields es @ yields fs"
  by (induction es rule: yields.induct) simp_all

lemma fold_count_append: "fold_count (es @ fs) = fold_count es + fold_count fs"
  by (induction es) (simp_all add: fold_count_def)

lemma run_yields:
  "yields (trace (foldl step_part s ps)) = yields (trace s) @ map part_str (filter answer_part ps)"
proof (induction ps arbitrary: s)
  case Nil
  show ?case by simp
next
  case (Cons p ps)
  from part_cases [of p] show ?case
  proof (elim disjE)
    assume "part_str p = []"
    then show ?thesis using Cons by (simp add: step_part_skip answer_part_def)
  next
    assume t: "thought_part p"
    then have "\<not> answer_part p" by (simp add: thought_part_def answer_part_def)
    with t show ?thesis using Cons by (simp add: step_part_thought yields_append)
  next
    assume a: "answer_part p"
    then show ?thesis using Cons
      by (simp add: step_part_answer yields_append finish_thinking_def)
  qed
qed

lemma run_answer:
  "answer (foldl step_part s ps) = answer s @ concat (map part_str (filter answer_part ps))"
proof (induction ps arbitrary: s)
  case Nil
  show ?case by simp
next
  case (Cons p ps)
  from part_cases [of p] show ?case
  proof (elim disjE)
    assume "part_str p = []"
    then show ?thesis using Cons by (simp add: step_part_skip answer_part_def)
  next
    assume t: "thought_part p"
    then have "\<not> answer_part p" by (simp add: thought_part_def answer_part_def)
    with t show ?thesis using Cons by (simp add: step_part_thought)
  next
    assume a: "answer_part p"
    then show ?thesis using Cons
      by (simp add: step_part_answer finish_thinking_def)
  qed
qed

lemma run_thoughts:
  "thoughts (foldl step_part s ps) = thoughts s @ concat (map part_str (filter thought_part ps))"
proof (induction ps arbitrary: s)
  case Nil
  show ?case by simp
next
  case (Cons p ps)
  from part_cases [of p] show ?case
  proof (elim disjE)
    assume "part_str p = []"
    then show ?thesis using Cons by (simp add: step_part_skip thought_part_def)
  next
    assume t: "thought_part p"
    then show ?thesis using Cons by (simp add: step_part_thought)
  next
    assume a: "answer_part p"
    then have "\<not> thought_part p" by (simp add: thought_part_def answer_part_def)
    with a show ?thesis using Cons
      by (simp add: step_part_answer finish_thinking_def)
  qed
qed

lemma run_folded_count:
  "thoughts_folded s \<Longrightarrow> fold_count (trace (foldl step_part s ps)) = fold_count (trace s)"
proof (induction ps arbitrary: s)
  case Nil
  show ?case by simp
next
  case (Cons p ps)
  from part_cases [of p] show ?case
  proof (elim disjE)
    assume "part_str p = []"
    then show ?thesis using Cons by (simp add: step_part_skip)
  next
    assume t: "thought_part p"
    have "fold_count (trace (foldl step_part (step_part s p) ps)) = fold_count (trace (step_part s p))"
      using Cons.prems t by (intro Cons.IH) (simp add: step_part_thought)
    then show ?thesis using t
      by (simp add: step_part_thought fold_count_append) (simp add: fold_count_def)
  next
    assume a: "answer_part p"
    have "fold_count (trace (foldl step_part (step_part s p) ps)) = fold_count (trace (step_part s p))"
      using a by (intro Cons.IH) (simp add: step_part_answer)
    then show ?thesis using a Cons.prems
      by (simp add: step_part_answer fold_count_append finish_thinking_def) (simp add: fold_count_def)
  qed
qed

lemma run_fold_count:
  "\<not> thoughts_folded s \<Longrightarrow>
   fold_count (trace (foldl step_part s ps)) =
     fold_count (trace s) + (if list_ex answer_part ps then 1 else 0)"
proof (induction ps arbitrary: s)
  case Nil
  show ?case by simp
next
  case (Cons p ps)
  from part_cases [of p] show ?case
  proof (elim disjE)
    assume "part_str p = []"
    then show ?thesis using Cons by (simp add: step_part_skip answer_part_def)
  next
    assume t: "thought_part p"
    then have na: "\<not> answer_part p" by (simp add: thought_part_def answer_part_def)
    have "fold_count (trace (foldl step_part (step_part s p) ps)) =
          fold_count (trace (step_part s p)) + (if list_ex answer_part ps then 1 else 0)"
      using Cons.prems t by (intro Cons.IH) (simp add: step_part_thought)
    then show ?thesis using t na
      by (simp add: step_part_thought fold_count_append) (simp add: fold_count_def)
  next
    assume a: "answer_part p"
    have "fold_count (trace (foldl step_part (step_part s p) ps)) = fold_count (trace (step_part s p))"
      using a by (intro run_folded_count) (simp add: step_part_answer)
    then show ?thesis using a Cons.prems
      by (simp add: step_part_answer fold_count_append finish_thinking_def) (simp add: fold_count_def)
  qed
qed

lemma step_trace_ext: "\<exists>rest. trace (step_part s p) = trace s @ rest"
proof -
  have "\<exists>rest. trace (finish_thinking s) = trace s @ rest"
    by (cases "thoughts_folded s") (simp_all add: finish_thinking_def)
  then show ?thesis
    using part_cases [of p]
    by (auto simp: step_part_skip step_part_thought step_part_answer)
qed

lemma run_trace_ext: "\<exists>rest. trace (foldl step_part s ps) = trace s @ rest"
proof (induction ps arbitrary: s)
  case Nil
  show ?case by simp
next
  case (Cons p ps)
  obtain r1 where r1: "trace (step_part s p) = trace s @ r1"
    using step_trace_ext by blast
  obtain r2 where "trace (foldl step_part (step_part s p) ps) = trace (step_part s p) @ r2"
    using Cons.IH by blast
  with r1 show ?case by simp
qed

lemma run_unfolded:
  "\<not> list_ex answer_part ps \<Longrightarrow>
   thoughts_folded (foldl step_part s ps) = thoughts_folded s
   \<and> thought_box (foldl step_part s ps) = thought_box s"
proof (induction ps arbitrary: s)
  case Nil
  show ?case by simp
next
  case (Cons p ps)
  from Cons.prems have na: "\<not> answer_part p" and rest: "\<not> list_ex answer_part ps"
    by simp_all
  from na part_cases [of p] have
    "thoughts_folded (step_part s p) = thoughts_folded s \<and> thought_box (step_part s p) = thought_box s"
    by (auto simp: step_part_skip step_part_thought)
  with Cons.IH [OF rest, of "step_part s p"] show ?case by simp
qed

lemma gen_chunks_run:
  "gen_chunks stream =
     (foldl step_part init_state (fragments stream))
       \<lparr>trace := trace (foldl step_part init_state (fragments stream))
                  @ [PrintAnswer (answer (foldl step_part init_state (fragments stream)))]\<rparr>"
  by (simp add: gen_chunks_def stream_fold Let_def)

text \<open>
  A stream whose only fragment is a non-thought fragment with empty text: a non-thought
  fragment has arrived, and the fold has not happened.
\<close>

theorem fold_once_counterexample:
  "list_ex is_answer (fragments empty_answer_stream)
   \<and> fold_count (trace (gen_chunks empty_answer_stream)) = 0"
  by (simp add: empty_answer_stream_def fragments_def chunk_parts_def cand_parts_def is_answer_def
      gen_chunks_def step_chunk_def step_cand_def step_part_def init_state_def fold_count_def)

text \<open>
  Claim C3, with the guard on empty texts written in. Over a whole run the folding
  effect (\<^verbatim>\<open>thought_box.empty()\<close>, the new collapsed expander, its markdown) happens once
  if some non-thought fragment has a non-empty text and never otherwise. It happens at
  the first such fragment \<open>p\<close>: the trace up to there holds no fold, then come the three
  folding effects showing the thoughts gathered so far and the yield of \<open>p\<close>, and what
  follows holds no fold. All thought fragments with a non-empty text, also those after
  the fold, are appended to \<open>thoughts\<close>.
\<close>

theorem fold_once:
  "fold_count (trace (gen_chunks stream)) =
     (if list_ex answer_part (fragments stream) then 1 else 0)
   \<and> thoughts (gen_chunks stream) =
       concat (map part_str (filter thought_part (fragments stream)))
   \<and> (\<forall>pre p post.
         fragments stream = pre @ p # post \<and> \<not> list_ex answer_part pre \<and> answer_part p
         \<longrightarrow> (\<exists>rest.
               trace (gen_chunks stream) =
                 trace (foldl step_part init_state pre)
                 @ [BoxEmpty, NewExpander,
                    BoxMarkdown Expander (concat (map part_str (filter thought_part pre))),
                    YieldText (part_str p)]
                 @ rest
               \<and> fold_count (trace (foldl step_part init_state pre)) = 0
               \<and> fold_count rest = 0))"
proof (intro conjI allI impI)
  have i: "\<not> thoughts_folded init_state" "trace init_state = []" "thoughts init_state = []"
    by (simp_all add: init_state_def)
  show "fold_count (trace (gen_chunks stream)) =
     (if list_ex answer_part (fragments stream) then 1 else 0)"
    using run_fold_count [OF i(1), of "fragments stream"] i(2)
    by (simp add: gen_chunks_run fold_count_append) (simp add: fold_count_def)
  show "thoughts (gen_chunks stream) =
       concat (map part_str (filter thought_part (fragments stream)))"
    using run_thoughts [of init_state "fragments stream"] i(3)
    by (simp add: gen_chunks_run)
next
  fix pre p post
  assume h: "fragments stream = pre @ p # post \<and> \<not> list_ex answer_part pre \<and> answer_part p"
  define s1 where "s1 = foldl step_part init_state pre"
  define s2 where "s2 = step_part s1 p"
  have i: "\<not> thoughts_folded init_state" "trace init_state = []" "thoughts init_state = []"
    by (simp_all add: init_state_def)
  from h have nf: "\<not> thoughts_folded s1"
    using run_unfolded [of pre init_state] i(1) by (simp add: s1_def)
  have th: "thoughts s1 = concat (map part_str (filter thought_part pre))"
    using run_thoughts [of init_state pre] i(3) by (simp add: s1_def)
  have c1: "fold_count (trace s1) = 0"
    using run_fold_count [OF i(1), of pre] h i(2)
    by (simp add: s1_def) (simp add: fold_count_def)
  from h nf th have t2: "trace s2 = trace s1 @ [BoxEmpty, NewExpander,
      BoxMarkdown Expander (concat (map part_str (filter thought_part pre))), YieldText (part_str p)]"
    by (simp add: s2_def step_part_answer finish_thinking_def)
  from h have f2: "thoughts_folded s2"
    by (simp add: s2_def step_part_answer)
  obtain r where r: "trace (foldl step_part s2 post) = trace s2 @ r"
    using run_trace_ext by blast
  from run_folded_count [OF f2, of post] r have cr: "fold_count r = 0"
    by (simp add: fold_count_append)
  from h have run: "foldl step_part init_state (fragments stream) = foldl step_part s2 post"
    by (simp add: s1_def s2_def)
  have "trace (gen_chunks stream) = trace s1 @ [BoxEmpty, NewExpander,
      BoxMarkdown Expander (concat (map part_str (filter thought_part pre))), YieldText (part_str p)]
      @ (r @ [PrintAnswer (answer (foldl step_part s2 post))])"
    by (simp add: gen_chunks_run run r t2)
  moreover have "fold_count (r @ [PrintAnswer (answer (foldl step_part s2 post))]) = 0"
    using cr by (simp add: fold_count_append) (simp add: fold_count_def)
  ultimately show "\<exists>rest.
               trace (gen_chunks stream) =
                 trace (foldl step_part init_state pre)
                 @ [BoxEmpty, NewExpander,
                    BoxMarkdown Expander (concat (map part_str (filter thought_part pre))),
                    YieldText (part_str p)]
                 @ rest
               \<and> fold_count (trace (foldl step_part init_state pre)) = 0
               \<and> fold_count rest = 0"
    using c1 unfolding s1_def by blast
qed

theorem fold_once_witness:
  "fragments fold_stream =
     [\<lparr>part_text = Some ''a'', thought = True\<rparr>, \<lparr>part_text = Some ''ab'', thought = True\<rparr>]
     @ \<lparr>part_text = Some ''X'', thought = False\<rparr>
     # [\<lparr>part_text = Some ''abc'', thought = True\<rparr>, \<lparr>part_text = None, thought = False\<rparr>,
        \<lparr>part_text = Some ''Y'', thought = False\<rparr>]
   \<and> \<not> list_ex answer_part
         [\<lparr>part_text = Some ''a'', thought = True\<rparr>, \<lparr>part_text = Some ''ab'', thought = True\<rparr>]
   \<and> answer_part \<lparr>part_text = Some ''X'', thought = False\<rparr>
   \<and> fold_count (trace (gen_chunks fold_stream)) = 1
   \<and> thoughts (gen_chunks fold_stream) = ''aababc''
   \<and> (\<exists>rest. trace (gen_chunks fold_stream) =
           [BoxMarkdown Placeholder ''a'', BoxMarkdown Placeholder ''aab'', BoxEmpty, NewExpander,
            BoxMarkdown Expander ''aab'', YieldText ''X''] @ rest
         \<and> fold_count rest = 0)"
proof -
  let ?pre = "[\<lparr>part_text = Some ''a'', thought = True\<rparr>, \<lparr>part_text = Some ''ab'', thought = True\<rparr>]"
  let ?p = "\<lparr>part_text = Some ''X'', thought = False\<rparr>"
  let ?post = "[\<lparr>part_text = Some ''abc'', thought = True\<rparr>, \<lparr>part_text = None, thought = False\<rparr>,
        \<lparr>part_text = Some ''Y'', thought = False\<rparr>]"
  have f: "fragments fold_stream = ?pre @ ?p # ?post"
    by (simp add: fold_stream_def fragments_def chunk_parts_def cand_parts_def)
  have n: "\<not> list_ex answer_part ?pre"
    by (simp add: answer_part_def)
  have a: "answer_part ?p"
    by (simp add: answer_part_def part_str_def)
  have e: "list_ex answer_part (fragments fold_stream)"
    unfolding f using a by simp
  have th: "concat (map part_str (filter thought_part (fragments fold_stream))) = ''aababc''"
    unfolding f by (simp add: thought_part_def part_str_def)
  have t: "trace (foldl step_part init_state ?pre) =
      [BoxMarkdown Placeholder ''a'', BoxMarkdown Placeholder ''aab'']"
    by (simp add: step_part_def init_state_def)
  have c: "concat (map part_str (filter thought_part ?pre)) = ''aab''"
    by (simp add: thought_part_def part_str_def)
  from fold_once [of fold_stream] f n a
  obtain rest where "trace (gen_chunks fold_stream) =
                 trace (foldl step_part init_state ?pre)
                 @ [BoxEmpty, NewExpander,
                    BoxMarkdown Expander (concat (map part_str (filter thought_part ?pre))),
                    YieldText (part_str ?p)]
                 @ rest" and "fold_count rest = 0"
    by blast
  then have "\<exists>rest. trace (gen_chunks fold_stream) =
           [BoxMarkdown Placeholder ''a'', BoxMarkdown Placeholder ''aab'', BoxEmpty, NewExpander,
            BoxMarkdown Expander ''aab'', YieldText ''X''] @ rest
         \<and> fold_count rest = 0"
    unfolding t c by (simp add: part_str_def)
  moreover from fold_once [of fold_stream] e th
  have "fold_count (trace (gen_chunks fold_stream)) = 1"
    and "thoughts (gen_chunks fold_stream) = ''aababc''"
    by simp_all
  ultimately show ?thesis using f n a by blast
qed

lemma concat_answer_texts:
  "concat (map part_str (filter answer_part ps)) = concat (map part_str (filter is_answer ps))"
  by (induction ps) (auto simp: answer_part_def is_answer_def)

text \<open>
  Three non-thought fragments, the middle one with an empty text: two increments are
  yielded, not three.
\<close>

theorem yields_counterexample:
  "map part_str (filter is_answer (fragments gap_stream)) = [''X'', [], ''Y'']
   \<and> yields (trace (gen_chunks gap_stream)) = [''X'', ''Y'']"
  by (simp add: gap_stream_def fragments_def chunk_parts_def cand_parts_def is_answer_def
      part_str_def gen_chunks_def step_chunk_def step_cand_def step_part_def init_state_def
      finish_thinking_def)

text \<open>
  Claim C7, with the guard on empty texts written in. The yielded increments are, in
  arrival order, the texts of the non-thought fragments whose text is non-empty, one
  increment each; joined they are the concatenation of the texts of all non-thought
  fragments and equal the final \<open>answer\<close> buffer. The yield is the last effect of the
  step that handles the fragment.
\<close>

theorem yields_answer_texts:
  "yields (trace (gen_chunks stream)) = map part_str (filter answer_part (fragments stream))
   \<and> concat (yields (trace (gen_chunks stream))) =
       concat (map part_str (filter is_answer (fragments stream)))
   \<and> concat (yields (trace (gen_chunks stream))) = answer (gen_chunks stream)
   \<and> trace (step_part s \<lparr>part_text = Some (c # t), thought = False\<rparr>) =
       trace (finish_thinking s) @ [YieldText (c # t)]"
proof -
  have i: "trace init_state = []" "answer init_state = []"
    by (simp_all add: init_state_def)
  have y: "yields (trace (gen_chunks stream)) = map part_str (filter answer_part (fragments stream))"
    using run_yields [of init_state "fragments stream"] i(1)
    by (simp add: gen_chunks_run yields_append)
  have a: "answer (gen_chunks stream) = concat (map part_str (filter answer_part (fragments stream)))"
    using run_answer [of init_state "fragments stream"] i(2)
    by (simp add: gen_chunks_run)
  have s: "trace (step_part s \<lparr>part_text = Some (c # t), thought = False\<rparr>) =
       trace (finish_thinking s) @ [YieldText (c # t)]"
    by (simp add: step_part_def)
  from y a s show ?thesis
    by (simp add: concat_answer_texts)
qed

lemma run_filter:
  "foldl step_part s ps = foldl step_part s (filter (\<lambda>q. part_str q \<noteq> []) ps)"
  by (induction ps arbitrary: s) (simp_all add: step_part_skip)

text \<open>
  Claim C9. A fragment whose text is absent or empty leaves the whole state as it is:
  neither buffer grows, the fold flag and the widget stay, and no effect is added to the
  trace (no markdown, no fold, no yield). In particular a first non-thought fragment with
  empty text leaves the initial state unfolded, and a run over a stream is the run over
  its fragments with a non-empty text.
\<close>

theorem empty_text_ignored:
  "step_part s (p\<lparr>part_text := None\<rparr>) = s
   \<and> step_part s (p\<lparr>part_text := Some []\<rparr>) = s
   \<and> step_part init_state \<lparr>part_text = Some [], thought = False\<rparr> = init_state
   \<and> foldl step_chunk s stream =
       foldl step_part s (filter (\<lambda>q. part_str q \<noteq> []) (fragments stream))"
proof -
  have "foldl step_chunk s stream =
       foldl step_part s (filter (\<lambda>q. part_str q \<noteq> []) (fragments stream))"
    using run_filter [of s "fragments stream"] by (simp add: stream_fold)
  then show ?thesis
    by (simp add: step_part_def)
qed

section \<open>Pagination: fetch_paginated\<close>

lemma fetch_stop: "\<not> truthy url \<Longrightarrow> fetch_paginated get url hdrs = Some ([], None)"
  by (subst fetch_paginated.simps) (simp add: truthy_def split: option.splits)

lemma fetch_timeout:
  "u \<noteq> [] \<Longrightarrow> get u hdrs = TimedOut \<Longrightarrow>
   fetch_paginated get (Some u) hdrs = Some ([Request u], Some Timeout)"
  by (subst fetch_paginated.simps) simp

lemma fetch_5xx:
  "u \<noteq> [] \<Longrightarrow> get u hdrs = Response code txt payload \<Longrightarrow> 500 \<le> code \<Longrightarrow>
   fetch_paginated get (Some u) hdrs = Some ([Request u], Some (ReviewEndpointDown txt))"
  by (subst fetch_paginated.simps) simp

lemma fetch_4xx:
  "u \<noteq> [] \<Longrightarrow> get u hdrs = Response code txt payload \<Longrightarrow> 400 \<le> code \<Longrightarrow> code < 500 \<Longrightarrow>
   fetch_paginated get (Some u) hdrs = Some ([Request u], Some (HTTPError code))"
  by (subst fetch_paginated.simps) (simp add: raise_for_status_def)

lemma fetch_page:
  "u \<noteq> [] \<Longrightarrow> get u hdrs = Response code txt payload \<Longrightarrow> code < 400 \<Longrightarrow>
   fetch_paginated get (Some u) hdrs =
     Option.bind (fetch_paginated get (next_url payload) hdrs)
       (\<lambda>r. Some (Request u # map Yield (data payload) @ fst r, snd r))"
  by (subst fetch_paginated.simps) (simp add: raise_for_status_def)

lemma yielded_append: "yielded (es @ fs) = yielded es @ yielded fs"
  by (induction es rule: yielded.induct) simp_all

lemma yielded_map_Yield: "yielded (map Yield xs) = xs"
  by (induction xs) simp_all

lemma requested_append: "requested (es @ fs) = requested es @ requested fs"
  by (induction es rule: requested.induct) simp_all

lemma requested_map_Yield: "requested (map Yield xs) = []"
  by (induction xs) simp_all

lemma fetch_chain:
  "page_chain get hdrs url pages \<Longrightarrow>
   fetch_paginated get url hdrs = Some (chain_events url pages, None)"
proof (induction pages arbitrary: url)
  case Nil
  then show ?case by (simp add: fetch_stop)
next
  case (Cons p ps)
  from Cons.prems obtain u code body where u: "url = Some u" "u \<noteq> []"
    and g: "get u hdrs = Response code body p" "code < 400"
    and rest: "page_chain get hdrs (next_url p) ps"
    by (auto split: option.splits http_result.splits)
  from Cons.IH [OF rest] u g show ?case
    by (simp add: fetch_page)
qed

lemma chain_yielded:
  "page_chain get hdrs url pages \<Longrightarrow> yielded (chain_events url pages) = concat (map data pages)"
proof (induction pages arbitrary: url)
  case Nil
  show ?case by simp
next
  case (Cons p ps)
  then show ?case
    by (auto split: option.splits http_result.splits simp: yielded_append yielded_map_Yield)
qed

lemma chain_requested:
  "page_chain get hdrs url pages \<Longrightarrow> length (requested (chain_events url pages)) = length pages"
proof (induction pages arbitrary: url)
  case Nil
  show ?case by simp
next
  case (Cons p ps)
  then show ?case
    by (auto split: option.splits http_result.splits simp: requested_append requested_map_Yield)
qed

text \<open>
  Conversely, a run that ends without an exception has followed a finite chain of pages:
  the loop is left only at an absent cursor.
\<close>

lemma fetch_normal_end_chain:
  assumes run: "fetch_paginated get url hdrs = Some r"
  shows "snd r = None \<longrightarrow> (\<exists>pages. page_chain get hdrs url pages)"
  apply (rule fetch_paginated.raw_induct
      [where P = "\<lambda>get url hdrs r. snd r = None \<longrightarrow> (\<exists>pages. page_chain get hdrs url pages)",
       OF _ run])
  subgoal premises p for fetch get url hdrs r
  proof (cases "truthy url")
    case False
    then have "page_chain get hdrs url []" by simp
    then show ?thesis by blast
  next
    case True
    then obtain u where u: "url = Some u" "u \<noteq> []"
      by (auto simp: truthy_def split: option.splits)
    show ?thesis
    proof (cases "get u hdrs")
      case TimedOut
      with p(2) u show ?thesis by auto
    next
      case (Response code body payload)
      show ?thesis
      proof
        assume n: "snd r = None"
        with p(2) u Response have c: "code < 400"
          by (auto simp: raise_for_status_def split: if_splits)
        with p(2) n u Response obtain r' where
          r': "fetch get (next_url payload) hdrs = Some r'" "snd r' = None"
          by (auto simp: raise_for_status_def split: if_splits Option.bind_splits)
        from p(1) [OF r'(1)] r'(2) obtain ps where "page_chain get hdrs (next_url payload) ps"
          by blast
        with u Response c have "page_chain get hdrs url (payload # ps)" by simp
        then show "\<exists>pages. page_chain get hdrs url pages" by blast
      qed
    qed
  qed
  done

text \<open>
  The exceptions that leave the generator are those of the status check and of the
  requests library (\<open>http_error\<close>); each is an \<^verbatim>\<open>Exception\<close>, and none is a plain one.
\<close>

lemma fetch_errors_aux:
  assumes run: "fetch_paginated get url hdrs = Some r"
  shows "\<forall>e. snd r = Some e \<longrightarrow> http_error e"
  apply (rule fetch_paginated.raw_induct
      [where P = "\<lambda>get url hdrs r. \<forall>e. snd r = Some e \<longrightarrow> http_error e", OF _ run])
  subgoal premises p for fetch get url hdrs r
  proof (cases "truthy url")
    case False
    with p(2) show ?thesis
      by (auto simp: truthy_def split: option.splits)
  next
    case True
    then obtain u where u: "url = Some u" "u \<noteq> []"
      by (auto simp: truthy_def split: option.splits)
    show ?thesis
    proof (cases "get u hdrs")
      case TimedOut
      with p(2) u show ?thesis by auto
    next
      case (Response code body payload)
      show ?thesis
      proof (cases "code < 400")
        case False
        with p(2) u Response show ?thesis
          by (auto simp: raise_for_status_def split: if_splits)
      next
        case True
        with p(2) u Response obtain r' where
          r': "fetch get (next_url payload) hdrs = Some r'" "snd r' = snd r"
          by (auto simp: raise_for_status_def split: if_splits Option.bind_splits)
        from p(1) [OF r'(1)] r'(2) show ?thesis by simp
      qed
    qed
  qed
  done

lemma fetch_errors:
  "fetch_paginated get url hdrs = Some (evs, Some e) \<Longrightarrow> http_error e"
  using fetch_errors_aux [of get url hdrs "(evs, Some e)"] by simp

lemma http_error_Exception: "http_error e \<Longrightarrow> is_Exception e"
  by (cases e) simp_all

lemma http_error_not_plain: "http_error e \<Longrightarrow> e \<noteq> Exception m"
  by (cases e) simp_all

text \<open>A run over a non-empty URL starts with the request of that URL.\<close>

lemma fetch_first_request:
  "u \<noteq> [] \<Longrightarrow> fetch_paginated get (Some u) hdrs = Some (evs, e) \<Longrightarrow>
   \<exists>rest. evs = Request u # rest"
  by (subst (asm) fetch_paginated.simps)
     (auto simp: raise_for_status_def split: http_result.splits if_splits Option.bind_splits)

lemma fetch_None: "fetch_paginated get None hdrs = Some ([], None)"
  by (simp add: fetch_stop truthy_def)

lemma fetch_Some:
  "u \<noteq> [] \<Longrightarrow>
   fetch_paginated get (Some u) hdrs =
     (case get u hdrs of
        TimedOut \<Rightarrow> Some ([Request u], Some Timeout)
      | Response code body payload \<Rightarrow>
          if 500 \<le> code then Some ([Request u], Some (ReviewEndpointDown body))
          else if 400 \<le> code then Some ([Request u], Some (HTTPError code))
          else Option.bind (fetch_paginated get (next_url payload) hdrs)
                 (\<lambda>r. Some (Request u # map Yield (data payload) @ fst r, snd r)))"
  by (subst fetch_paginated.simps) (simp add: raise_for_status_def split: http_result.splits)

lemmas run_defs = get_vocab_def token_of_def truthy_def mk_runtime_def example_env_def
  example_clock_def auth_headers_def recent_subject_ids_via_assignments_def WK_API_URL_def
  fetch_Some fetch_None set_add_def

text \<open>
  Claim C6. Over a finite chain of pages the generator returns (it is not \<open>None\<close>),
  ends without an exception, and its run is \<open>chain_events\<close>: one request per page, each
  followed by that page's items in payload order before the next request. The yielded
  items are the concatenation of the pages' \<open>data\<close> in page order, their number is the
  sum of the page sizes, and the number of requests is the number of pages, so the run
  stops at the page whose cursor is absent and not before.
\<close>

theorem fetch_paginated_chain:
  assumes "page_chain get hdrs url pages"
  shows "fetch_paginated get url hdrs = Some (chain_events url pages, None)
         \<and> yielded (chain_events url pages) = concat (map data pages)
         \<and> length (yielded (chain_events url pages)) = sum_list (map (\<lambda>p. length (data p)) pages)
         \<and> length (requested (chain_events url pages)) = length pages"
proof -
  have "length (concat (map data pages)) = sum_list (map (\<lambda>p. length (data p)) pages)"
    by (simp add: length_concat comp_def)
  with fetch_chain [OF assms] chain_yielded [OF assms] chain_requested [OF assms]
  show ?thesis by simp
qed

theorem fetch_paginated_chain_witness:
  "page_chain pages_get [] (Some ''p1'')
     [\<lparr>data = [\<lparr>object = ''kanji'', subject_id = 7, slug = ustr_of ''a''\<rparr>,
               \<lparr>object = ''vocabulary'', subject_id = 8, slug = ustr_of ''b''\<rparr>],
       next_url = Some ''p2''\<rparr>,
      \<lparr>data = [], next_url = Some ''p3''\<rparr>,
      \<lparr>data = [\<lparr>object = ''vocabulary'', subject_id = 9, slug = ustr_of ''c''\<rparr>], next_url = None\<rparr>]
   \<and> fetch_paginated pages_get (Some ''p1'') [] =
       Some ([Request ''p1'',
              Yield \<lparr>object = ''kanji'', subject_id = 7, slug = ustr_of ''a''\<rparr>,
              Yield \<lparr>object = ''vocabulary'', subject_id = 8, slug = ustr_of ''b''\<rparr>,
              Request ''p2'',
              Request ''p3'',
              Yield \<lparr>object = ''vocabulary'', subject_id = 9, slug = ustr_of ''c''\<rparr>], None)"
proof -
  let ?pages = "[\<lparr>data = [\<lparr>object = ''kanji'', subject_id = 7, slug = ustr_of ''a''\<rparr>,
               \<lparr>object = ''vocabulary'', subject_id = 8, slug = ustr_of ''b''\<rparr>],
       next_url = Some ''p2''\<rparr>,
      \<lparr>data = [], next_url = Some ''p3''\<rparr>,
      \<lparr>data = [\<lparr>object = ''vocabulary'', subject_id = 9, slug = ustr_of ''c''\<rparr>], next_url = None\<rparr>]"
  have c: "page_chain pages_get [] (Some ''p1'') ?pages"
    by (simp add: pages_get_def truthy_def)
  from fetch_paginated_chain [OF c] c show ?thesis by simp
qed

section \<open>Aggregation: get_vocab and its call site\<close>

lemma recent_errors:
  "recent_subject_ids_via_assignments rt since hdrs = Some (Inl e) \<Longrightarrow> http_error e"
  by (auto simp: recent_subject_ids_via_assignments_def
      split: option.splits prod.splits dest: fetch_errors)

lemma gather_batches_errors:
  "gather_batches get hdrs batches vocab = Some (evs, Inl e) \<Longrightarrow> http_error e"
proof (induction batches arbitrary: vocab evs)
  case Nil
  then show ?case by simp
next
  case (Cons b bs)
  then show ?case
    by (auto split: option.splits prod.splits dest: fetch_errors)
qed

lemma gather_errors:
  "gather_vocab_subjects rt ids hdrs = Some (evs, Inl e) \<Longrightarrow> http_error e"
  by (auto simp: gather_vocab_subjects_def chunked_def CHUNK_def
      split: sum.splits option.splits prod.splits if_splits dest: gather_batches_errors)

text \<open>
  Every way in which \<open>get_vocab\<close> raises once a token is present, by what the resolver
  and the lookup did.
\<close>

lemma get_vocab_cases:
  assumes t: "token_of rt api_token = Some token" "token \<noteq> []"
    and g: "get_vocab rt minutes api_token = Some (log, Inl e)"
  shows "(recent_subject_ids_via_assignments rt (iso_now_minus rt minutes) (auth_headers token)
            = Some (Inl e) \<and> http_error e)
       \<or> (recent_subject_ids_via_assignments rt (iso_now_minus rt minutes) (auth_headers token)
            = Some (Inr []) \<and> e = Exception ''No recent reviews found'')
       \<or> (\<exists>ids evs.
            recent_subject_ids_via_assignments rt (iso_now_minus rt minutes) (auth_headers token)
              = Some (Inr ids) \<and> ids \<noteq> []
            \<and> gather_vocab_subjects rt ids (auth_headers token) = Some (evs, Inl e)
            \<and> http_error e)
       \<or> (\<exists>ids evs.
            recent_subject_ids_via_assignments rt (iso_now_minus rt minutes) (auth_headers token)
              = Some (Inr ids) \<and> ids \<noteq> []
            \<and> gather_vocab_subjects rt ids (auth_headers token) = Some (evs, Inr [])
            \<and> e = Exception ''No vocabulary among those reviews'')"
proof -
  let ?hdrs = "auth_headers token"
  let ?r = "recent_subject_ids_via_assignments rt (iso_now_minus rt minutes) ?hdrs"
  from t g have run:
    "(case ?r of
        None \<Rightarrow> None
      | Some (Inl (ReviewEndpointDown e)) \<Rightarrow>
          Some ([''Reviews endpoint down''], Inl (ReviewEndpointDown e))
      | Some (Inl e) \<Rightarrow> Some ([], Inl e)
      | Some (Inr ids) \<Rightarrow>
          if ids = []
          then Some ([''No recent reviews found''], Inl (Exception ''No recent reviews found''))
          else
            (case gather_vocab_subjects rt ids ?hdrs of
               None \<Rightarrow> None
             | Some (evs, Inl e) \<Rightarrow> Some ([], Inl e)
             | Some (evs, Inr vocab) \<Rightarrow>
                 if vocab = []
                 then Some ([''No vocabulary among those reviews''],
                            Inl (Exception ''No vocabulary among those reviews''))
                 else Some ([], Inr vocab))) = Some (log, Inl e)"
    by (simp add: get_vocab_def Let_def)
  show ?thesis
  proof (cases ?r)
    case None
    with run show ?thesis by simp
  next
    case (Some res)
    show ?thesis
    proof (cases res)
      case (Inl e')
      with Some have h: "http_error e'" by (auto dest: recent_errors)
      from run Some Inl have "e = e'"
        by (cases e') auto
      with Some Inl h show ?thesis by simp
    next
      case (Inr ids)
      show ?thesis
      proof (cases "ids = []")
        case True
        with run Some Inr show ?thesis by auto
      next
        case False
        show ?thesis
        proof (cases "gather_vocab_subjects rt ids ?hdrs")
          case None
          with run Some Inr False show ?thesis by simp
        next
          case gs: (Some gr)
          obtain evs res' where gr: "gr = (evs, res')" by (cases gr)
          show ?thesis
          proof (cases res')
            case (Inl e')
            with gs gr have "http_error e'" by (auto dest: gather_errors)
            moreover from run Some Inr False gs gr Inl have "e = e'" by simp
            ultimately show ?thesis using Some Inr False gs gr Inl by auto
          next
            case v: (Inr vocab)
            with run Some Inr False gs gr have "vocab = []"
              and "e = Exception ''No vocabulary among those reviews''"
              by (auto split: if_splits)
            with Some Inr False gs gr v show ?thesis by auto
          qed
        qed
      qed
    qed
  qed
qed

text \<open>
  No recent activity and no vocabulary are both raised as a plain \<^verbatim>\<open>Exception\<close>: the two
  runs end with exceptions of one class.
\<close>

theorem get_vocab_failures_counterexample:
  "get_vocab (mk_runtime idle_get) 30 [] =
     Some ([''No recent reviews found''], Inl (Exception ''No recent reviews found''))
   \<and> get_vocab (mk_runtime radical_get) 30 [] =
     Some ([''No vocabulary among those reviews''],
           Inl (Exception ''No vocabulary among those reviews''))
   \<and> error_class (Exception ''No recent reviews found'')
       = error_class (Exception ''No vocabulary among those reviews'')"
proof -
  have c: "chunked [101] CHUNK = Inr [[101]]"
    by code_simp
  have u: "subjects_url [101] = ''https://api.wanikani.com/v2/subjects?ids=101''"
    by code_simp
  have g3: "gather_vocab_subjects (mk_runtime radical_get) [101] [(''Authorization'', ''Bearer tok'')]
      = Some ([Request ''https://api.wanikani.com/v2/subjects?ids=101'',
               Yield \<lparr>object = ''radical'', subject_id = 101, slug = ustr_of ''ground''\<rparr>],
              Inr [])"
    by (simp add: gather_vocab_subjects_def mk_runtime_def c u fetch_Some fetch_None
        radical_get_def vocab_slugs_def sorted_set_lower_def py_set_def)
  have "get_vocab (mk_runtime idle_get) 30 [] =
     Some ([''No recent reviews found''], Inl (Exception ''No recent reviews found''))"
    by (simp add: run_defs idle_get_def)
  moreover have "get_vocab (mk_runtime radical_get) 30 [] =
     Some ([''No vocabulary among those reviews''],
           Inl (Exception ''No vocabulary among those reviews''))"
    using g3 by (simp add: run_defs radical_get_def)
  ultimately show ?thesis by simp
qed

text \<open>
  Claim C1, as the code has it. With a credential present the three failure conditions
  can be told apart by the caller, but not each by a class of its own. A resolver that
  raises \<open>ReviewEndpointDown\<close> makes \<open>get_vocab\<close> raise \<open>ReviewEndpointDown\<close>; an empty
  identifier set and a lookup without vocabulary both make it raise a plain
  \<^verbatim>\<open>Exception\<close>, with the messages \<^verbatim>\<open>No recent reviews found\<close> and
  \<^verbatim>\<open>No vocabulary among those reviews\<close>. Read backwards: a plain \<^verbatim>\<open>Exception\<close> that
  leaves \<open>get_vocab\<close> carries one of the two messages, and the message says which of the
  two conditions holds; a \<open>ReviewEndpointDown\<close> that leaves it was raised by the paginated
  fetcher, in the resolver or in the lookup.
\<close>

theorem get_vocab_failures:
  assumes "token_of rt api_token = Some token" and "token \<noteq> []"
  shows "(recent_subject_ids_via_assignments rt (iso_now_minus rt minutes) (auth_headers token)
            = Some (Inl (ReviewEndpointDown t))
          \<longrightarrow> get_vocab rt minutes api_token
                = Some ([''Reviews endpoint down''], Inl (ReviewEndpointDown t)))
       \<and> (recent_subject_ids_via_assignments rt (iso_now_minus rt minutes) (auth_headers token)
            = Some (Inr [])
          \<longrightarrow> get_vocab rt minutes api_token
                = Some ([''No recent reviews found''], Inl (Exception ''No recent reviews found'')))
       \<and> (recent_subject_ids_via_assignments rt (iso_now_minus rt minutes) (auth_headers token)
            = Some (Inr ids)
          \<and> ids \<noteq> []
          \<and> gather_vocab_subjects rt ids (auth_headers token) = Some (evs, Inr [])
          \<longrightarrow> get_vocab rt minutes api_token
                = Some ([''No vocabulary among those reviews''],
                        Inl (Exception ''No vocabulary among those reviews'')))
       \<and> (get_vocab rt minutes api_token = Some (log, Inl e)
          \<and> error_class e = ''Exception''
          \<longrightarrow> (e = Exception ''No recent reviews found''
                \<and> recent_subject_ids_via_assignments rt (iso_now_minus rt minutes)
                     (auth_headers token) = Some (Inr []))
              \<or> (e = Exception ''No vocabulary among those reviews''
                \<and> (\<exists>ids' evs'.
                      recent_subject_ids_via_assignments rt (iso_now_minus rt minutes)
                        (auth_headers token) = Some (Inr ids')
                    \<and> ids' \<noteq> []
                    \<and> gather_vocab_subjects rt ids' (auth_headers token) = Some (evs', Inr []))))
       \<and> (get_vocab rt minutes api_token = Some (log, Inl e)
          \<and> error_class e = ''ReviewEndpointDown''
          \<longrightarrow> recent_subject_ids_via_assignments rt (iso_now_minus rt minutes)
                  (auth_headers token) = Some (Inl e)
              \<or> (\<exists>ids' evs'.
                    recent_subject_ids_via_assignments rt (iso_now_minus rt minutes)
                      (auth_headers token) = Some (Inr ids')
                  \<and> ids' \<noteq> []
                  \<and> gather_vocab_subjects rt ids' (auth_headers token) = Some (evs', Inl e)))
       \<and> error_class (ReviewEndpointDown t) = ''ReviewEndpointDown''
       \<and> error_class (Exception ''No recent reviews found'') = ''Exception''
       \<and> error_class (Exception ''No vocabulary among those reviews'') = ''Exception''
       \<and> ''No recent reviews found'' \<noteq> ''No vocabulary among those reviews''"
proof -
  have fwd:
    "recent_subject_ids_via_assignments rt (iso_now_minus rt minutes) (auth_headers token)
            = Some (Inl (ReviewEndpointDown t))
          \<longrightarrow> get_vocab rt minutes api_token
                = Some ([''Reviews endpoint down''], Inl (ReviewEndpointDown t))"
    "recent_subject_ids_via_assignments rt (iso_now_minus rt minutes) (auth_headers token)
            = Some (Inr [])
          \<longrightarrow> get_vocab rt minutes api_token
                = Some ([''No recent reviews found''], Inl (Exception ''No recent reviews found''))"
    "recent_subject_ids_via_assignments rt (iso_now_minus rt minutes) (auth_headers token)
            = Some (Inr ids)
          \<and> ids \<noteq> []
          \<and> gather_vocab_subjects rt ids (auth_headers token) = Some (evs, Inr [])
          \<longrightarrow> get_vocab rt minutes api_token
                = Some ([''No vocabulary among those reviews''],
                        Inl (Exception ''No vocabulary among those reviews''))"
    using assms by (simp_all add: get_vocab_def)
  have plain: "(e = Exception ''No recent reviews found''
                \<and> recent_subject_ids_via_assignments rt (iso_now_minus rt minutes)
                     (auth_headers token) = Some (Inr []))
              \<or> (e = Exception ''No vocabulary among those reviews''
                \<and> (\<exists>ids' evs'.
                      recent_subject_ids_via_assignments rt (iso_now_minus rt minutes)
                        (auth_headers token) = Some (Inr ids')
                    \<and> ids' \<noteq> []
                    \<and> gather_vocab_subjects rt ids' (auth_headers token) = Some (evs', Inr [])))"
    if g: "get_vocab rt minutes api_token = Some (log, Inl e)"
      and c: "error_class e = ''Exception''"
  proof -
    from c have n: "\<not> http_error e" by (cases e) simp_all
    from get_vocab_cases [OF assms g] n show ?thesis by blast
  qed
  have down: "recent_subject_ids_via_assignments rt (iso_now_minus rt minutes)
                  (auth_headers token) = Some (Inl e)
              \<or> (\<exists>ids' evs'.
                    recent_subject_ids_via_assignments rt (iso_now_minus rt minutes)
                      (auth_headers token) = Some (Inr ids')
                  \<and> ids' \<noteq> []
                  \<and> gather_vocab_subjects rt ids' (auth_headers token) = Some (evs', Inl e))"
    if g: "get_vocab rt minutes api_token = Some (log, Inl e)"
      and c: "error_class e = ''ReviewEndpointDown''"
  proof -
    from c have n: "e \<noteq> Exception ''No recent reviews found''"
      "e \<noteq> Exception ''No vocabulary among those reviews''"
      by auto
    from get_vocab_cases [OF assms g] n show ?thesis by blast
  qed
  have cls: "error_class (ReviewEndpointDown t) = ''ReviewEndpointDown''"
    "error_class (Exception ''No recent reviews found'') = ''Exception''"
    "error_class (Exception ''No vocabulary among those reviews'') = ''Exception''"
    "''No recent reviews found'' \<noteq> ''No vocabulary among those reviews''"
    by simp_all
  from fwd plain down cls show ?thesis by blast
qed

theorem get_vocab_failures_witness:
  "get_vocab (mk_runtime down_get) 30 [] =
     Some ([''Reviews endpoint down''], Inl (ReviewEndpointDown ''Service Unavailable''))
   \<and> get_vocab (mk_runtime idle_get) 30 [] =
     Some ([''No recent reviews found''], Inl (Exception ''No recent reviews found''))
   \<and> recent_subject_ids_via_assignments (mk_runtime idle_get)
       (iso_now_minus (mk_runtime idle_get) 30) (auth_headers ''tok'') = Some (Inr [])
   \<and> get_vocab (mk_runtime radical_get) 30 [] =
     Some ([''No vocabulary among those reviews''],
           Inl (Exception ''No vocabulary among those reviews''))"
proof -
  have tok: "token_of (mk_runtime get) [] = Some ''tok''" for get
    by (simp add: token_of_def mk_runtime_def example_env_def)
  have ne: "''tok'' \<noteq> []" by simp
  have r1: "recent_subject_ids_via_assignments (mk_runtime down_get)
      (iso_now_minus (mk_runtime down_get) 30) (auth_headers ''tok'')
      = Some (Inl (ReviewEndpointDown ''Service Unavailable''))"
    by (simp add: run_defs down_get_def)
  have r2: "recent_subject_ids_via_assignments (mk_runtime idle_get)
      (iso_now_minus (mk_runtime idle_get) 30) (auth_headers ''tok'') = Some (Inr [])"
    by (simp add: run_defs idle_get_def)
  have r3: "recent_subject_ids_via_assignments (mk_runtime radical_get)
      (iso_now_minus (mk_runtime radical_get) 30) (auth_headers ''tok'') = Some (Inr [101])"
    by (simp add: run_defs radical_get_def)
  have c: "chunked [101] CHUNK = Inr [[101]]"
    by code_simp
  have u: "subjects_url [101] = ''https://api.wanikani.com/v2/subjects?ids=101''"
    by code_simp
  have g3: "gather_vocab_subjects (mk_runtime radical_get) [101] (auth_headers ''tok'')
      = Some ([Request ''https://api.wanikani.com/v2/subjects?ids=101'',
               Yield \<lparr>object = ''radical'', subject_id = 101, slug = ustr_of ''ground''\<rparr>],
              Inr [])"
    by (simp add: gather_vocab_subjects_def mk_runtime_def c u fetch_Some fetch_None
        radical_get_def vocab_slugs_def sorted_set_lower_def py_set_def)
  from get_vocab_failures [OF tok ne, of down_get 30 "''Service Unavailable''"] r1
  have g1: "get_vocab (mk_runtime down_get) 30 [] =
     Some ([''Reviews endpoint down''], Inl (ReviewEndpointDown ''Service Unavailable''))"
    by blast
  from get_vocab_failures [OF tok ne, of idle_get 30] r2
  have g2: "get_vocab (mk_runtime idle_get) 30 [] =
     Some ([''No recent reviews found''], Inl (Exception ''No recent reviews found''))"
    by blast
  from get_vocab_failures [OF tok [of idle_get] ne, where minutes = 30
      and log = "[''No recent reviews found'']" and e = "Exception ''No recent reviews found''"] g2
  have b2: "recent_subject_ids_via_assignments (mk_runtime idle_get)
       (iso_now_minus (mk_runtime idle_get) 30) (auth_headers ''tok'') = Some (Inr [])"
    by auto
  from get_vocab_failures [OF tok [of radical_get] ne, where minutes = 30
      and ids = "[101]"] r3 g3
  have "get_vocab (mk_runtime radical_get) 30 [] =
     Some ([''No vocabulary among those reviews''],
           Inl (Exception ''No vocabulary among those reviews''))"
    by blast
  with g1 g2 b2 show ?thesis by blast
qed

text \<open>
  Claim C2, at a request that times out. The generator has no handler around
  \<^verbatim>\<open>requests.get\<close>, so the exception of the requests library leaves it as it is, and
  \<open>get_vocab\<close>, which catches \<open>ReviewEndpointDown\<close> only, passes it on: the caller sees
  \<open>Timeout\<close>, not \<open>ReviewEndpointDown\<close>.
\<close>

theorem timeout_propagates:
  "fetch_paginated timeout_get (Some (WK_API_URL @ ''/assignments?updated_after=x'')) hdrs =
     Some ([Request (WK_API_URL @ ''/assignments?updated_after=x'')], Some Timeout)
   \<and> get_vocab (mk_runtime timeout_get) 30 [] = Some ([], Inl Timeout)"
  by (simp add: run_defs timeout_get_def)

text \<open>
  The two status classes of a response: 500 and above raises \<open>ReviewEndpointDown\<close> with
  the response text, 400 to 499 raises the \<open>HTTPError\<close> of \<^verbatim>\<open>raise_for_status\<close>.
\<close>

lemma status_classes:
  assumes "u \<noteq> []" and "get u hdrs = Response code body payload"
  shows "500 \<le> code \<longrightarrow>
           fetch_paginated get (Some u) hdrs = Some ([Request u], Some (ReviewEndpointDown body))"
    and "400 \<le> code \<and> code < 500 \<longrightarrow>
           fetch_paginated get (Some u) hdrs = Some ([Request u], Some (HTTPError code))"
  using assms by (simp_all add: fetch_Some)

lemma getenv_irrelevant:
  "recent_subject_ids_via_assignments (rt\<lparr>getenv := env\<rparr>) since hdrs
     = recent_subject_ids_via_assignments rt since hdrs"
  "gather_vocab_subjects (rt\<lparr>getenv := env\<rparr>) ids hdrs = gather_vocab_subjects rt ids hdrs"
proof -
  show "recent_subject_ids_via_assignments (rt\<lparr>getenv := env\<rparr>) since hdrs
     = recent_subject_ids_via_assignments rt since hdrs"
    by (simp add: recent_subject_ids_via_assignments_def)
  have "sorted_set_lower (rt\<lparr>getenv := env\<rparr>) vocab = sorted_set_lower rt vocab" for vocab
    by (simp add: sorted_set_lower_def)
  then show "gather_vocab_subjects (rt\<lparr>getenv := env\<rparr>) ids hdrs
     = gather_vocab_subjects rt ids hdrs"
    by (simp add: gather_vocab_subjects_def
        cong: option.case_cong sum.case_cong prod.case_cong)
qed

text \<open>
  Claim C10. With a non-empty \<open>api_token\<close> the token is the parameter, and the whole
  result of \<open>get_vocab\<close> (what it prints, what it raises or returns, and whether it
  returns at all) is the same under any two environments. With an empty parameter the
  token is what the environment holds under \<^verbatim>\<open>WANIKANI_API_TOKEN\<close>.
\<close>

theorem explicit_token_wins:
  "(api_token \<noteq> [] \<longrightarrow>
      get_vocab (rt\<lparr>getenv := env1\<rparr>) minutes api_token
        = get_vocab (rt\<lparr>getenv := env2\<rparr>) minutes api_token)
   \<and> (api_token \<noteq> [] \<longrightarrow> token_of rt api_token = Some api_token)
   \<and> token_of rt [] = getenv rt ''WANIKANI_API_TOKEN''"
proof -
  have "get_vocab (rt\<lparr>getenv := env\<rparr>) minutes api_token = get_vocab rt minutes api_token"
    if "api_token \<noteq> []" for env
    using that
    by (simp add: get_vocab_def token_of_def truthy_def getenv_irrelevant Let_def
        cong: option.case_cong sum.case_cong error.case_cong prod.case_cong if_cong)
  then show ?thesis
    by (simp add: token_of_def)
qed

theorem explicit_token_wins_witness:
  "''key'' \<noteq> []
   \<and> get_vocab ((mk_runtime idle_get)\<lparr>getenv := example_env\<rparr>) 30 ''key''
       = get_vocab ((mk_runtime idle_get)\<lparr>getenv := empty_env\<rparr>) 30 ''key''
   \<and> token_of (mk_runtime idle_get) ''key'' = Some ''key''"
  using explicit_token_wins [where api_token = "''key''" and rt = "mk_runtime idle_get"
      and ?env1.0 = example_env and ?env2.0 = empty_env and minutes = 30]
  by simp

section \<open>Deduplication and ordering\<close>

lemma set_add_set: "set (set_add x s) = insert x (set s)"
  by (auto simp: set_add_def)

lemma set_add_distinct: "distinct s \<Longrightarrow> distinct (set_add x s)"
  by (simp add: set_add_def)

lemma foldl_set_add:
  "set (foldl (\<lambda>s x. set_add x s) acc xs) = set acc \<union> set xs"
  "distinct acc \<Longrightarrow> distinct (foldl (\<lambda>s x. set_add x s) acc xs)"
  by (induction xs arbitrary: acc) (simp_all add: set_add_set set_add_distinct)

lemma py_set_props: "set (py_set xs) = set xs" "distinct (py_set xs)"
  by (simp_all add: py_set_def foldl_set_add)

text \<open>
  The identifier set that the resolver returns lists every identifier once: the list
  that \<open>gather_vocab_subjects\<close> cuts into batches has no duplicates.
\<close>

lemma foldl_set_add_key:
  "distinct acc \<Longrightarrow> distinct (foldl (\<lambda>s x. set_add (f x) s) acc xs)"
  by (induction xs arbitrary: acc) (simp_all add: set_add_distinct)

lemma resolved_ids_distinct:
  "recent_subject_ids_via_assignments rt since hdrs = Some (Inr ids) \<Longrightarrow> distinct ids"
  by (auto simp: recent_subject_ids_via_assignments_def foldl_set_add_key
      split: option.splits prod.splits)

lemma sorted_split:
  "sorted (map f xs) \<Longrightarrow> xs = filter (\<lambda>x. f x < k) xs @ filter (\<lambda>x. \<not> f x < k) xs"
proof (induction xs)
  case Nil
  show ?case by simp
next
  case (Cons x xs)
  then have le: "\<forall>y \<in> set xs. f x \<le> f y" and s: "sorted (map f xs)"
    by simp_all
  show ?case
  proof (cases "f x < k")
    case True
    with Cons.IH [OF s] show ?thesis by simp
  next
    case False
    with le have "\<forall>y \<in> set xs. \<not> f y < k" by auto
    then have "filter (\<lambda>x. f x < k) xs = []" "filter (\<lambda>x. \<not> f x < k) xs = xs"
      by (simp_all add: filter_empty_conv filter_id_conv)
    with False show ?thesis by simp
  qed
qed

lemma one_elem: "distinct xs \<Longrightarrow> set xs = {p} \<Longrightarrow> xs = [p]"
proof -
  assume d: "distinct xs" and s: "set xs = {p}"
  then have "length xs = 1" using distinct_card [OF d] by simp
  then obtain x where "xs = [x]" by (cases xs) auto
  with s show ?thesis by simp
qed

lemma two_elems: "distinct xs \<Longrightarrow> set xs = {p, q} \<Longrightarrow> p \<noteq> q \<Longrightarrow> xs = [p, q] \<or> xs = [q, p]"
proof -
  assume d: "distinct xs" and s: "set xs = {p, q}" and n: "p \<noteq> q"
  then have "length xs = 2" using distinct_card [OF d] by simp
  then obtain x y where xy: "xs = [x, y]"
    by (cases xs; cases "tl xs") auto
  with s n show ?thesis by (auto simp: doubleton_eq_iff)
qed

lemma four_sorted:
  fixes f :: "'a \<Rightarrow> 'k::linorder"
  assumes d: "distinct out" and s: "set out = {b, A, a, C}" and o: "sorted (map f out)"
    and k: "f A = f a" "f a < f b" "f b < f C" and n: "A \<noteq> a"
  shows "out = [A, a, b, C] \<or> out = [a, A, b, C]"
proof -
  define lo where "lo = filter (\<lambda>x. f x < f b) out"
  define hi where "hi = filter (\<lambda>x. \<not> f x < f b) out"
  have split1: "out = lo @ hi"
    unfolding lo_def hi_def by (rule sorted_split [OF o])
  have "set lo = {x \<in> {b, A, a, C}. f x < f b}"
    by (simp add: lo_def s)
  also have "\<dots> = {A, a}"
    using k by auto
  finally have sl: "set lo = {A, a}" .
  have dl: "distinct lo" using d by (simp add: lo_def)
  from dl sl n have lo: "lo = [A, a] \<or> lo = [a, A]"
    by (rule two_elems)
  have "set hi = {x \<in> {b, A, a, C}. \<not> f x < f b}"
    by (simp add: hi_def s)
  also have "\<dots> = {b, C}"
    using k by auto
  finally have sh: "set hi = {b, C}" .
  have dh: "distinct hi" using d by (simp add: hi_def)
  have oh: "sorted (map f hi)"
    unfolding hi_def using o by (rule sorted_filter)
  define mid where "mid = filter (\<lambda>x. f x < f C) hi"
  define top where "top = filter (\<lambda>x. \<not> f x < f C) hi"
  have split2: "hi = mid @ top"
    unfolding mid_def top_def by (rule sorted_split [OF oh])
  have "set mid = {x \<in> {b, C}. f x < f C}"
    by (simp add: mid_def sh)
  also have "\<dots> = {b}"
    using k by auto
  finally have sm: "set mid = {b}" .
  have "distinct mid" using dh by (simp add: mid_def)
  then have mid: "mid = [b]" using sm by (rule one_elem)
  have "set top = {x \<in> {b, C}. \<not> f x < f C}"
    by (simp add: top_def sh)
  also have "\<dots> = {C}"
    using k by auto
  finally have st: "set top = {C}" .
  have "distinct top" using dh by (simp add: top_def)
  then have top: "top = [C]" using st by (rule one_elem)
  from split1 split2 lo mid top show ?thesis by auto
qed

text \<open>
  The four slugs of the example. With \<^verbatim>\<open>str.lower\<close> acting on ASCII slugs as it does,
  a duplicate-free list of the four that is sorted by the key is one of two lists.
\<close>

lemma fruit_order:
  assumes d: "distinct out"
    and s: "set out = {ustr_of ''banana'', ustr_of ''Apple'', ustr_of ''apple'', ustr_of ''Cherry''}"
    and o: "sorted (map lower out)"
    and a: "\<And>s. is_ascii s \<Longrightarrow> lower s = ascii_lower s"
  shows "out = [ustr_of ''Apple'', ustr_of ''apple'', ustr_of ''banana'', ustr_of ''Cherry'']
       \<or> out = [ustr_of ''apple'', ustr_of ''Apple'', ustr_of ''banana'', ustr_of ''Cherry'']"
proof -
  have i: "is_ascii (ustr_of ''banana'')" "is_ascii (ustr_of ''Apple'')"
    "is_ascii (ustr_of ''apple'')" "is_ascii (ustr_of ''Cherry'')"
    by code_simp+
  have e1: "ascii_lower (ustr_of ''Apple'') = ascii_lower (ustr_of ''apple'')" by code_simp
  have e2: "ascii_lower (ustr_of ''apple'') < ascii_lower (ustr_of ''banana'')" by code_simp
  have e3: "ascii_lower (ustr_of ''banana'') < ascii_lower (ustr_of ''Cherry'')" by code_simp
  have k1: "lower (ustr_of ''Apple'') = lower (ustr_of ''apple'')"
    using e1 by (simp add: a i)
  have k2: "lower (ustr_of ''apple'') < lower (ustr_of ''banana'')"
    using e2 by (simp add: a i)
  have k3: "lower (ustr_of ''banana'') < lower (ustr_of ''Cherry'')"
    using e3 by (simp add: a i)
  have n: "ustr_of ''Apple'' \<noteq> ustr_of ''apple''" by code_simp
  from d s o k1 k2 k3 n show ?thesis by (rule four_sorted)
qed

lemma sorted_set_lower_props:
  assumes "mset (str_set_order rt (py_set vocab)) = mset (py_set vocab)"
  shows "distinct (sorted_set_lower rt vocab)"
    and "set (sorted_set_lower rt vocab) = set vocab"
    and "sorted (map (str_lower rt) (sorted_set_lower rt vocab))"
    and "filter (\<lambda>y. str_lower rt y = k) (sorted_set_lower rt vocab)
           = filter (\<lambda>y. str_lower rt y = k) (str_set_order rt (py_set vocab))"
proof -
  from assms have "distinct (str_set_order rt (py_set vocab))"
    by (metis mset_eq_imp_distinct_iff py_set_props(2))
  then show "distinct (sorted_set_lower rt vocab)"
    by (simp add: sorted_set_lower_def)
  from assms have "set (str_set_order rt (py_set vocab)) = set (py_set vocab)"
    by (rule mset_eq_setD)
  then show "set (sorted_set_lower rt vocab) = set vocab"
    by (simp add: sorted_set_lower_def py_set_props)
  show "sorted (map (str_lower rt) (sorted_set_lower rt vocab))"
    by (simp add: sorted_set_lower_def)
  show "filter (\<lambda>y. str_lower rt y = k) (sorted_set_lower rt vocab)
           = filter (\<lambda>y. str_lower rt y = k) (str_set_order rt (py_set vocab))"
    by (simp add: sorted_set_lower_def sort_key_stable)
qed

section \<open>Failures at the call site\<close>

lemma get_vocab_errors:
  assumes "truthy (token_of rt api_token)"
    and "get_vocab rt minutes api_token = Some (log, Inl e)"
  shows "is_Exception e"
proof -
  from assms(1) obtain token where t: "token_of rt api_token = Some token" "token \<noteq> []"
    by (auto simp: truthy_def split: option.splits)
  from get_vocab_cases [OF t assms(2)] show ?thesis
    by (auto dest: http_error_Exception)
qed

text \<open>
  Claim C5, as the code has it. When \<open>get_vocab\<close>, called as the script calls it, fails
  and the environment holds a token, the exception is an \<^verbatim>\<open>Exception\<close>, the handler
  sets \<^verbatim>\<open>vocab = []\<close> and the script goes on with an empty input text. When the
  environment holds no token, the failure is \<open>SystemExit 1\<close>, which the handler does not
  catch: it leaves the script.
\<close>

theorem session_start_on_failure:
  assumes "get_vocab rt 1440 [] = Some (log, Inl e)"
  shows "if truthy (getenv rt ''WANIKANI_API_TOKEN'')
         then is_Exception e \<and> session_start rt = Some (Inr ([], []))
         else e = SystemExit 1 \<and> session_start rt = Some (Inl (SystemExit 1))"
proof (cases "truthy (getenv rt ''WANIKANI_API_TOKEN'')")
  case True
  then have "truthy (token_of rt [])" by (simp add: token_of_def)
  from get_vocab_errors [OF this assms] have "is_Exception e" .
  with assms True show ?thesis by (simp add: session_start_def)
next
  case False
  then have "\<not> truthy (token_of rt [])" by (simp add: token_of_def)
  with assms have "e = SystemExit 1"
    by (auto simp: get_vocab_def truthy_def split: option.splits)
  with assms False show ?thesis by (simp add: session_start_def)
qed

theorem session_start_on_failure_witness:
  "get_vocab (mk_runtime down_get) 1440 [] =
     Some ([''Reviews endpoint down''], Inl (ReviewEndpointDown ''Service Unavailable''))
   \<and> truthy (getenv (mk_runtime down_get) ''WANIKANI_API_TOKEN'')
   \<and> session_start (mk_runtime down_get) = Some (Inr ([], []))
   \<and> get_vocab (mk_runtime idle_get) 1440 [] =
     Some ([''No recent reviews found''], Inl (Exception ''No recent reviews found''))
   \<and> session_start (mk_runtime idle_get) = Some (Inr ([], []))"
proof -
  have g1: "get_vocab (mk_runtime down_get) 1440 [] =
     Some ([''Reviews endpoint down''], Inl (ReviewEndpointDown ''Service Unavailable''))"
    by (simp add: run_defs down_get_def)
  have g2: "get_vocab (mk_runtime idle_get) 1440 [] =
     Some ([''No recent reviews found''], Inl (Exception ''No recent reviews found''))"
    by (simp add: run_defs idle_get_def)
  have t: "truthy (getenv (mk_runtime get) ''WANIKANI_API_TOKEN'')" for get
    by (simp add: mk_runtime_def example_env_def truthy_def)
  from session_start_on_failure [OF g1] t
  have "session_start (mk_runtime down_get) = Some (Inr ([], []))" by simp
  moreover from session_start_on_failure [OF g2] t
  have "session_start (mk_runtime idle_get) = Some (Inr ([], []))" by simp
  ultimately show ?thesis using g1 g2 t by simp
qed

text \<open>
  Without a token in the environment the call site does not go on with an empty list:
  \<open>SystemExit 1\<close> leaves the script.
\<close>

theorem session_start_counterexample:
  "get_vocab no_token_runtime 1440 [] =
     Some ([''API token required via --api-token or WANIKANI_API_TOKEN env var''],
           Inl (SystemExit 1))
   \<and> session_start no_token_runtime = Some (Inl (SystemExit 1))"
  by (simp add: no_token_runtime_def session_start_def get_vocab_def token_of_def
      empty_env_def truthy_def)

section \<open>Batching in the subject lookup\<close>

lemma subjects_url_nonempty: "subjects_url batch \<noteq> []"
  by (simp add: subjects_url_def WK_API_URL_def)

text \<open>
  The loop of the lookup against the batches it is given. If the generator ends normally
  on every batch, the lookup performs exactly those runs, one per batch and in the order
  of the batches, and collects the vocabulary slugs of each; and a lookup that ends
  normally has performed such a run on every batch.
\<close>

lemma gather_batches_ok:
  "list_all2 (\<lambda>b r. fetch_paginated get (Some (subjects_url b)) hdrs = Some (r, None)) batches runs
   \<Longrightarrow> gather_batches get hdrs batches vocab
       = Some (concat runs, Inr (vocab @ concat (map (\<lambda>r. vocab_slugs (yielded r)) runs)))"
proof (induction batches runs arbitrary: vocab rule: list_all2_induct)
  case Nil
  show ?case by simp
next
  case (Cons b bs r rs)
  from Cons.IH [of "vocab @ vocab_slugs (yielded r)"] Cons.hyps(1) show ?case
    by simp
qed

lemma gather_batches_runs:
  "gather_batches get hdrs batches vocab = Some (evs, Inr out)
   \<Longrightarrow> \<exists>runs. list_all2
                 (\<lambda>b r. fetch_paginated get (Some (subjects_url b)) hdrs = Some (r, None))
                 batches runs
             \<and> evs = concat runs"
proof (induction batches arbitrary: vocab evs)
  case Nil
  then show ?case by simp
next
  case (Cons b bs)
  from Cons.prems obtain r evs' where
    r: "fetch_paginated get (Some (subjects_url b)) hdrs = Some (r, None)"
    and g: "gather_batches get hdrs bs (vocab @ vocab_slugs (yielded r)) = Some (evs', Inr out)"
    and e: "evs = r @ evs'"
    by (auto split: option.splits prod.splits)
  from Cons.IH [OF g] obtain runs where
    "list_all2 (\<lambda>b r. fetch_paginated get (Some (subjects_url b)) hdrs = Some (r, None)) bs runs"
    and "evs' = concat runs"
    by blast
  with r e have
    "list_all2 (\<lambda>b r. fetch_paginated get (Some (subjects_url b)) hdrs = Some (r, None))
       (b # bs) (r # runs) \<and> evs = concat (r # runs)"
    by simp
  then show ?case by blast
qed

lemma runs_start_with_request:
  "list_all2 (\<lambda>b r. fetch_paginated get (Some (subjects_url b)) hdrs = Some (r, None)) batches runs
   \<Longrightarrow> list_all2 (\<lambda>b r. \<exists>rest. r = Request (subjects_url b) # rest) batches runs"
  by (erule list_all2_mono) (rule fetch_first_request [OF subjects_url_nonempty])

text \<open>
  Claim C8. The lookup is given a set of \<open>K\<close> identifiers: a duplicate-free list \<open>ids\<close>,
  which \<^verbatim>\<open>list(subject_ids)\<close> lists in some order. It works on the batches that \<open>chunked\<close>
  cuts from that list with the size \<open>CHUNK = 1000\<close>. Their number \<open>n\<close> is
  \<open>(K + CHUNK - 1) div CHUNK\<close>, the one number with \<open>K \<le> n * CHUNK < K + CHUNK\<close>, that is
  \<open>\<lceil>K / CHUNK\<rceil>\<close>; every batch is non-empty and holds at most \<open>CHUNK\<close> identifiers; the
  batches together hold the identifiers of the set, each in exactly one batch. The
  requests follow the batches: when the generator ends normally on every batch, the
  lookup performs exactly these runs in batch order, each starting with the request of
  its batch's URL, and returns; and a lookup that returns normally has performed one such
  run for every batch.
\<close>

theorem lookup_batches:
  assumes d: "distinct ids" and perm: "mset (int_set_order rt ids) = mset ids"
  shows "\<exists>batches.
           chunked (int_set_order rt ids) CHUNK = Inr batches
         \<and> length batches = (length ids + CHUNK - 1) div CHUNK
         \<and> length ids \<le> length batches * CHUNK
         \<and> length batches * CHUNK < length ids + CHUNK
         \<and> (\<forall>b \<in> set batches. b \<noteq> [] \<and> length b \<le> CHUNK)
         \<and> mset (concat batches) = mset ids
         \<and> (\<forall>x \<in> set ids. length (filter (\<lambda>b. x \<in> set b) batches) = 1)
         \<and> (\<forall>runs.
               list_all2
                 (\<lambda>b r. fetch_paginated (requests_get rt) (Some (subjects_url b)) hdrs
                          = Some (r, None))
                 batches runs
               \<longrightarrow> gather_vocab_subjects rt ids hdrs
                     = Some (concat runs,
                         Inr (sorted_set_lower rt
                                (concat (map (\<lambda>r. vocab_slugs (yielded r)) runs))))
                   \<and> length runs = length batches
                   \<and> list_all2 (\<lambda>b r. \<exists>rest. r = Request (subjects_url b) # rest) batches runs)
         \<and> (\<forall>evs out.
               gather_vocab_subjects rt ids hdrs = Some (evs, Inr out)
               \<longrightarrow> (\<exists>runs.
                     list_all2
                       (\<lambda>b r. fetch_paginated (requests_get rt) (Some (subjects_url b)) hdrs
                                = Some (r, None))
                       batches runs
                     \<and> evs = concat runs
                     \<and> length runs = length batches))"
proof -
  let ?seq = "int_set_order rt ids"
  from perm d have ds: "distinct ?seq"
    by (metis mset_eq_imp_distinct_iff)
  from perm have len: "length ?seq = length ids"
    by (rule mset_eq_length)
  from perm have st: "set ?seq = set ids"
    by (rule mset_eq_setD)
  from chunked_partition [OF ds] obtain batches where
    c: "chunked ?seq CHUNK = Inr batches"
    and n: "length batches = (length ?seq + CHUNK - 1) div CHUNK"
    and up: "length ?seq \<le> length batches * CHUNK"
    and lo: "length batches * CHUNK < length ?seq + CHUNK"
    and each: "\<forall>b \<in> set batches. b \<noteq> [] \<and> length b \<le> CHUNK"
    and cat: "concat batches = ?seq"
    and once: "\<forall>x \<in> set ?seq. length (filter (\<lambda>b. x \<in> set b) batches) = 1"
    by blast
  have ms: "mset (concat batches) = mset ids"
    using cat perm by simp
  have ok: "gather_vocab_subjects rt ids hdrs
                = Some (concat runs,
                    Inr (sorted_set_lower rt (concat (map (\<lambda>r. vocab_slugs (yielded r)) runs))))
            \<and> length runs = length batches
            \<and> list_all2 (\<lambda>b r. \<exists>rest. r = Request (subjects_url b) # rest) batches runs"
    if r: "list_all2
             (\<lambda>b r. fetch_paginated (requests_get rt) (Some (subjects_url b)) hdrs = Some (r, None))
             batches runs"
    for runs
  proof -
    from gather_batches_ok [OF r, of "[]"] c
    have "gather_vocab_subjects rt ids hdrs
                = Some (concat runs,
                    Inr (sorted_set_lower rt (concat (map (\<lambda>r. vocab_slugs (yielded r)) runs))))"
      by (simp add: gather_vocab_subjects_def del: gather_batches.simps)
    moreover from r have "length runs = length batches"
      by (simp add: list_all2_lengthD)
    moreover note runs_start_with_request [OF r]
    ultimately show ?thesis by blast
  qed
  have conv: "\<exists>runs.
                list_all2
                  (\<lambda>b r. fetch_paginated (requests_get rt) (Some (subjects_url b)) hdrs
                           = Some (r, None))
                  batches runs
                \<and> evs = concat runs
                \<and> length runs = length batches"
    if g: "gather_vocab_subjects rt ids hdrs = Some (evs, Inr out)" for evs out
  proof -
    from g c obtain vocab where
      "gather_batches (requests_get rt) hdrs batches [] = Some (evs, Inr vocab)"
      by (auto simp: gather_vocab_subjects_def split: option.splits prod.splits sum.splits)
    from gather_batches_runs [OF this] obtain runs where
      r: "list_all2
            (\<lambda>b r. fetch_paginated (requests_get rt) (Some (subjects_url b)) hdrs = Some (r, None))
            batches runs"
      and e: "evs = concat runs"
      by blast
    from r have "length runs = length batches"
      by (simp add: list_all2_lengthD)
    with r e show ?thesis by blast
  qed
  from c n up lo each ms once ok conv show ?thesis
    unfolding len st by blast
qed

theorem lookup_batches_witness:
  "distinct (map int [0..<2500])
   \<and> mset (int_set_order (mk_runtime idle_get) (map int [0..<2500])) = mset (map int [0..<2500])
   \<and> (\<exists>batches.
         chunked (map int [0..<2500]) CHUNK = Inr batches
       \<and> length batches = 3
       \<and> gather_vocab_subjects (mk_runtime idle_get) (map int [0..<2500]) []
           = Some (map (\<lambda>b. Request (subjects_url b)) batches, Inr []))"
proof -
  let ?ids = "map int [0..<2500]"
  let ?rt = "mk_runtime idle_get"
  have d: "distinct ?ids"
    by (simp add: distinct_map)
  have o: "int_set_order ?rt ?ids = ?ids" "requests_get ?rt = idle_get"
    by (simp_all add: mk_runtime_def)
  have perm: "mset (int_set_order ?rt ?ids) = mset ?ids"
    by (simp only: o)
  have three: "(length ?ids + CHUNK - 1) div CHUNK = 3"
    by (simp add: CHUNK_def)
  have run: "fetch_paginated idle_get (Some (subjects_url b)) [] = Some ([Request (subjects_url b)], None)"
    for b
    by (simp add: fetch_Some fetch_None subjects_url_nonempty idle_get_def)
  have empty: "sorted_set_lower ?rt [] = []"
    by (simp add: sorted_set_lower_def py_set_def mk_runtime_def)
  from lookup_batches [OF d perm, of "[]"] obtain batches where
    c: "chunked (int_set_order ?rt ?ids) CHUNK = Inr batches"
    and n: "length batches = (length ?ids + CHUNK - 1) div CHUNK"
    and ok: "\<forall>runs.
               list_all2
                 (\<lambda>b r. fetch_paginated (requests_get ?rt) (Some (subjects_url b)) []
                          = Some (r, None))
                 batches runs
               \<longrightarrow> gather_vocab_subjects ?rt ?ids []
                     = Some (concat runs,
                         Inr (sorted_set_lower ?rt
                                (concat (map (\<lambda>r. vocab_slugs (yielded r)) runs))))
                   \<and> length runs = length batches
                   \<and> list_all2 (\<lambda>b r. \<exists>rest. r = Request (subjects_url b) # rest) batches runs"
    by blast
  let ?runs = "map (\<lambda>b. [Request (subjects_url b)]) batches"
  have "list_all2
          (\<lambda>b r. fetch_paginated (requests_get ?rt) (Some (subjects_url b)) [] = Some (r, None))
          batches ?runs"
    by (simp add: list_all2_map2 o(2) run list_all2_refl)
  with ok have g: "gather_vocab_subjects ?rt ?ids []
      = Some (concat ?runs,
          Inr (sorted_set_lower ?rt (concat (map (\<lambda>r. vocab_slugs (yielded r)) ?runs))))"
    by blast
  have e1: "concat ?runs = map (\<lambda>b. Request (subjects_url b)) batches"
    by (induction batches) simp_all
  have e2: "concat (map (\<lambda>r. vocab_slugs (yielded r)) ?runs) = []"
    by (induction batches) (simp_all add: vocab_slugs_def)
  from g have "gather_vocab_subjects ?rt ?ids []
      = Some (map (\<lambda>b. Request (subjects_url b)) batches, Inr [])"
    unfolding e1 e2 empty .
  with c n three d perm show ?thesis
    unfolding o(1) by auto
qed

section \<open>Deduplication and ordering of the lookup's result\<close>

lemma gather_batches_result:
  "gather_vocab_subjects rt ids hdrs = Some (evs, Inr out) \<Longrightarrow>
   \<exists>batches vocab. chunked (int_set_order rt ids) CHUNK = Inr batches
      \<and> gather_batches (requests_get rt) hdrs batches [] = Some (evs, Inr vocab)
      \<and> out = sorted_set_lower rt vocab"
  by (auto simp: gather_vocab_subjects_def split: sum.splits option.splits prod.splits)

text \<open>
  Claim C4, as the code has it. Whatever order the runtime iterates a set in (any
  permutation of its elements) and whatever \<^verbatim>\<open>str.lower\<close> does to a slug, the list
  returned by \<open>gather_vocab_subjects\<close> has no duplicates, holds exactly the collected
  slugs, and is sorted by the key \<^verbatim>\<open>str.lower\<close>; slugs with the same key keep the order in
  which the set was iterated. For the slugs banana, Apple, apple, Cherry, on which
  \<^verbatim>\<open>str.lower\<close> acts as it does on every ASCII slug, the output has length 4, with
  banana third and Cherry fourth; Apple and apple come first in either order.
\<close>

theorem gather_sorted_dedup:
  assumes run: "gather_vocab_subjects rt ids hdrs = Some (evs, Inr out)"
    and perm: "\<And>xs. mset (str_set_order rt xs) = mset xs"
  shows "\<exists>batches vocab.
           chunked (int_set_order rt ids) CHUNK = Inr batches
         \<and> gather_batches (requests_get rt) hdrs batches [] = Some (evs, Inr vocab)
         \<and> distinct out
         \<and> set out = set vocab
         \<and> sorted (map (str_lower rt) out)
         \<and> filter (\<lambda>y. str_lower rt y = k) out
             = filter (\<lambda>y. str_lower rt y = k) (str_set_order rt (py_set vocab))
         \<and> (set vocab
               = {ustr_of ''banana'', ustr_of ''Apple'', ustr_of ''apple'', ustr_of ''Cherry''}
             \<and> (\<forall>s. is_ascii s \<longrightarrow> str_lower rt s = ascii_lower s)
              \<longrightarrow> length out = 4
                \<and> (out = [ustr_of ''Apple'', ustr_of ''apple'', ustr_of ''banana'',
                          ustr_of ''Cherry'']
                   \<or> out = [ustr_of ''apple'', ustr_of ''Apple'', ustr_of ''banana'',
                             ustr_of ''Cherry'']))"
proof -
  from gather_batches_result [OF run] obtain batches vocab where
    b: "chunked (int_set_order rt ids) CHUNK = Inr batches"
    and g: "gather_batches (requests_get rt) hdrs batches [] = Some (evs, Inr vocab)"
    and out: "out = sorted_set_lower rt vocab"
    by blast
  note p = sorted_set_lower_props [OF perm, where vocab = vocab, folded out]
  have ex: "length out = 4
          \<and> (out = [ustr_of ''Apple'', ustr_of ''apple'', ustr_of ''banana'', ustr_of ''Cherry'']
             \<or> out = [ustr_of ''apple'', ustr_of ''Apple'', ustr_of ''banana'', ustr_of ''Cherry''])"
    if s: "set vocab
             = {ustr_of ''banana'', ustr_of ''Apple'', ustr_of ''apple'', ustr_of ''Cherry''}"
      and a: "\<forall>s. is_ascii s \<longrightarrow> str_lower rt s = ascii_lower s"
  proof -
    from p(1) p(2) p(3) s a
    have "out = [ustr_of ''Apple'', ustr_of ''apple'', ustr_of ''banana'', ustr_of ''Cherry'']
             \<or> out = [ustr_of ''apple'', ustr_of ''Apple'', ustr_of ''banana'', ustr_of ''Cherry'']"
      by (intro fruit_order [where lower = "str_lower rt"]) simp_all
    then show ?thesis by auto
  qed
  from b g p ex show ?thesis by blast
qed

subsection \<open>The four slugs\<close>

lemma fruit_batches: "chunked [1, 2, 3, 4] CHUNK = Inr [[1, 2, 3, 4]]"
  by code_simp

lemma fruit_sorted:
  "sorted_set_lower (mk_runtime fruit_get)
     [ustr_of ''banana'', ustr_of ''Apple'', ustr_of ''apple'', ustr_of ''Cherry'']
     = [ustr_of ''Apple'', ustr_of ''apple'', ustr_of ''banana'', ustr_of ''Cherry'']"
  "sorted_set_lower rev_runtime
     [ustr_of ''banana'', ustr_of ''Apple'', ustr_of ''apple'', ustr_of ''Cherry'']
     = [ustr_of ''apple'', ustr_of ''Apple'', ustr_of ''banana'', ustr_of ''Cherry'']"
  by code_simp+

lemma fruit_vocab:
  "\<exists>evs. gather_batches fruit_get hdrs [[1, 2, 3, 4]] []
     = Some (evs, Inr [ustr_of ''banana'', ustr_of ''Apple'', ustr_of ''apple'', ustr_of ''Cherry''])"
  by (simp add: fetch_Some fetch_None subjects_url_nonempty fruit_get_def vocab_slugs_def)

lemma fruit_run:
  assumes "requests_get rt = fruit_get" and "int_set_order rt [1, 2, 3, 4] = [1, 2, 3, 4]"
  shows "\<exists>evs. gather_vocab_subjects rt [1, 2, 3, 4] hdrs
     = Some (evs, Inr (sorted_set_lower rt
          [ustr_of ''banana'', ustr_of ''Apple'', ustr_of ''apple'', ustr_of ''Cherry'']))"
proof -
  from fruit_vocab obtain evs where
    "gather_batches fruit_get hdrs [[1, 2, 3, 4]] []
     = Some (evs, Inr [ustr_of ''banana'', ustr_of ''Apple'', ustr_of ''apple'', ustr_of ''Cherry''])"
    by blast
  with assms show ?thesis
    by (simp add: gather_vocab_subjects_def fruit_batches del: gather_batches.simps)
qed

text \<open>
  A runtime that iterates the set of the four slugs in the reverse of their insertion
  order: the lookup collects banana, Apple, apple, Cherry and returns apple before Apple.
\<close>

theorem gather_sorted_dedup_counterexample:
  "map_option snd
     (gather_batches (requests_get rev_runtime) (auth_headers ''tok'') [[1, 2, 3, 4]] [])
     = Some (Inr [ustr_of ''banana'', ustr_of ''Apple'', ustr_of ''apple'', ustr_of ''Cherry''])
   \<and> map_option snd (gather_vocab_subjects rev_runtime [1, 2, 3, 4] (auth_headers ''tok''))
     = Some (Inr [ustr_of ''apple'', ustr_of ''Apple'', ustr_of ''banana'', ustr_of ''Cherry''])
   \<and> [ustr_of ''apple'', ustr_of ''Apple'', ustr_of ''banana'', ustr_of ''Cherry'']
     \<noteq> [ustr_of ''Apple'', ustr_of ''apple'', ustr_of ''banana'', ustr_of ''Cherry'']"
proof -
  have r: "requests_get rev_runtime = fruit_get"
    "int_set_order rev_runtime [1, 2, 3, 4] = [1, 2, 3, 4]"
    by (simp_all add: rev_runtime_def mk_runtime_def)
  from fruit_vocab [of "auth_headers ''tok''"]
  have v: "map_option snd
     (gather_batches (requests_get rev_runtime) (auth_headers ''tok'') [[1, 2, 3, 4]] [])
     = Some (Inr [ustr_of ''banana'', ustr_of ''Apple'', ustr_of ''apple'', ustr_of ''Cherry''])"
    unfolding r(1) by auto
  from fruit_run [OF r, of "auth_headers ''tok''"]
  have g: "map_option snd (gather_vocab_subjects rev_runtime [1, 2, 3, 4] (auth_headers ''tok''))
     = Some (Inr [ustr_of ''apple'', ustr_of ''Apple'', ustr_of ''banana'', ustr_of ''Cherry''])"
    unfolding fruit_sorted(2) by auto
  have n: "ustr_of ''apple'' \<noteq> ustr_of ''Apple''"
    by code_simp
  from v g n show ?thesis by simp
qed

theorem gather_sorted_dedup_witness:
  "map_option snd (gather_vocab_subjects (mk_runtime fruit_get) [1, 2, 3, 4] (auth_headers ''tok''))
     = Some (Inr [ustr_of ''Apple'', ustr_of ''apple'', ustr_of ''banana'', ustr_of ''Cherry''])
   \<and> (\<forall>xs. mset (str_set_order (mk_runtime fruit_get) xs) = mset xs)
   \<and> str_lower (mk_runtime fruit_get) = ascii_lower
   \<and> distinct [ustr_of ''Apple'', ustr_of ''apple'', ustr_of ''banana'', ustr_of ''Cherry'']
   \<and> sorted (map (str_lower (mk_runtime fruit_get))
        [ustr_of ''Apple'', ustr_of ''apple'', ustr_of ''banana'', ustr_of ''Cherry''])
   \<and> filter (\<lambda>y. str_lower (mk_runtime fruit_get) y = ustr_of ''apple'')
        [ustr_of ''Apple'', ustr_of ''apple'', ustr_of ''banana'', ustr_of ''Cherry'']
       = filter (\<lambda>y. str_lower (mk_runtime fruit_get) y = ustr_of ''apple'')
           (str_set_order (mk_runtime fruit_get)
              (py_set [ustr_of ''banana'', ustr_of ''Apple'', ustr_of ''apple'', ustr_of ''Cherry'']))"
proof -
  let ?rt = "mk_runtime fruit_get"
  let ?out = "[ustr_of ''Apple'', ustr_of ''apple'', ustr_of ''banana'', ustr_of ''Cherry'']"
  have b: "requests_get ?rt = fruit_get" "int_set_order ?rt [1, 2, 3, 4] = [1, 2, 3, 4]"
    by (simp_all add: mk_runtime_def)
  have lw: "str_lower ?rt = ascii_lower"
    by (simp add: mk_runtime_def)
  from fruit_run [OF b, of "auth_headers ''tok''"] obtain evs where
    run: "gather_vocab_subjects ?rt [1, 2, 3, 4] (auth_headers ''tok'') = Some (evs, Inr ?out)"
    unfolding fruit_sorted(1) by blast
  have perm: "mset (str_set_order ?rt xs) = mset xs" for xs
    by (simp add: mk_runtime_def)
  from gather_sorted_dedup [OF run perm, of "ustr_of ''apple''"]
  obtain batches vocab where
    cb: "chunked (int_set_order ?rt [1, 2, 3, 4]) CHUNK = Inr batches"
    and gb: "gather_batches (requests_get ?rt) (auth_headers ''tok'') batches []
           = Some (evs, Inr vocab)"
    and d: "distinct ?out"
    and s: "sorted (map (str_lower ?rt) ?out)"
    and f: "filter (\<lambda>y. str_lower ?rt y = ustr_of ''apple'') ?out
       = filter (\<lambda>y. str_lower ?rt y = ustr_of ''apple'') (str_set_order ?rt (py_set vocab))"
    by blast
  from cb have bs: "batches = [[1, 2, 3, 4]]"
    by (simp add: b fruit_batches)
  from fruit_vocab [of "auth_headers ''tok''"] gb
  have "vocab = [ustr_of ''banana'', ustr_of ''Apple'', ustr_of ''apple'', ustr_of ''Cherry'']"
    unfolding bs b(1) by auto
  with d s f run perm lw show ?thesis by auto
qed


end
